theory Spec2Isabelle
  imports Main "HOL-Library.AList"
begin

section \<open>Strings\<close>

text \<open>
  JavaScript strings are modelled as \<open>string\<close> (lists of characters).  The helpers below
  are the string methods the crawler calls: \<open>s.endsWith(t)\<close>, \<open>s.replace(/\/+$/, "")\<close>,
  \<open>s.indexOf(t)\<close> (\<open>None\<close> for \<open>-1\<close>), \<open>s.includes(t)\<close>, and the escaping pair
  \<open>s.replace(/\\/g, "\\\\").replace(/"/g, "\\\"")\<close> of \<open>toDot\<close>.
\<close>

definition endsWith :: "string \<Rightarrow> string \<Rightarrow> bool" where
  "endsWith s t = (length t \<le> length s \<and> drop (length s - length t) s = t)"

definition stripTrailingSlashes :: "string \<Rightarrow> string" where
  "stripTrailingSlashes s = rev (dropWhile (\<lambda>c. c = CHR ''/'') (rev s))"

fun indexOf :: "string \<Rightarrow> string \<Rightarrow> nat option" where
  "indexOf [] t = (if t = [] then Some 0 else None)"
| "indexOf (c # cs) t =
     (if take (length t) (c # cs) = t then Some 0 else map_option Suc (indexOf cs t))"

definition includesStr :: "string \<Rightarrow> string \<Rightarrow> bool" where
  "includesStr s t = (indexOf s t \<noteq> None)"

section \<open>The platform: the URL class and \<open>toLowerCase\<close>\<close>

text \<open>
  The crawler calls the JavaScript runtime's \<open>URL\<close> class and \<open>String.prototype.toLowerCase\<close>.
  Neither is code of the repository, so both are parameters of the model: a record of the
  operations the source uses, over an arbitrary type \<open>'u\<close> of URL objects.

  \<^item> \<open>url_new s\<close> is \<open>new URL(s)\<close>; \<open>None\<close> when the constructor throws.
  \<^item> \<open>url_new_base h b\<close> is \<open>new URL(h, b)\<close>.
  \<^item> \<open>url_toString\<close>, \<open>url_protocol\<close>, \<open>url_origin\<close>, \<open>url_pathname\<close>, \<open>url_search\<close> and
    \<open>url_hash\<close> are the getters of the same names.
  \<^item> \<open>url_clear_hash u\<close> is the assignment \<open>u.hash = ""\<close> (the only value the source assigns).
  \<^item> \<open>url_set_pathname u p\<close> is the assignment \<open>u.pathname = p\<close>.
\<close>

record 'u platform =
  url_new :: "string \<Rightarrow> 'u option"
  url_new_base :: "string \<Rightarrow> string \<Rightarrow> 'u option"
  url_toString :: "'u \<Rightarrow> string"
  url_protocol :: "'u \<Rightarrow> string"
  url_origin :: "'u \<Rightarrow> string"
  url_pathname :: "'u \<Rightarrow> string"
  url_search :: "'u \<Rightarrow> string"
  url_hash :: "'u \<Rightarrow> string"
  url_clear_hash :: "'u \<Rightarrow> 'u"
  url_set_pathname :: "'u \<Rightarrow> string \<Rightarrow> 'u"
  toLowerCase :: "string \<Rightarrow> string"

section \<open>URL helpers of the crawler\<close>

text \<open>
  \<open>normalizeUrl\<close>: parse, clear the fragment, strip the trailing slashes of every path but
  \<open>/\<close>, serialize; the raw string when the constructor throws.  \<open>stripPath\<close> is the
  conditional assignment to \<open>u.pathname\<close>.
\<close>

definition stripPath :: "'u platform \<Rightarrow> 'u \<Rightarrow> 'u" where
  "stripPath P u =
     (if url_pathname P u \<noteq> ''/'' \<and> endsWith (url_pathname P u) ''/''
      then url_set_pathname P u (stripTrailingSlashes (url_pathname P u))
      else u)"

definition normalizeUrl :: "'u platform \<Rightarrow> string \<Rightarrow> string" where
  "normalizeUrl P raw =
     (case url_new P raw of
        None \<Rightarrow> raw
      | Some u \<Rightarrow> url_toString P (stripPath P (url_clear_hash P u)))"

text \<open>
  \<open>resolveHref\<close>: \<open>null\<close> for a missing or empty href, for an href the constructor rejects,
  and for a protocol other than \<open>http:\<close> and \<open>https:\<close>.
\<close>

definition resolveHref :: "'u platform \<Rightarrow> string \<Rightarrow> string option \<Rightarrow> string option" where
  "resolveHref P baseUrl href =
     (case href of
        None \<Rightarrow> None
      | Some h \<Rightarrow>
          if h = [] then None
          else (case url_new_base P h baseUrl of
                  None \<Rightarrow> None
                | Some au \<Rightarrow>
                    if url_protocol P au = ''http:'' \<or> url_protocol P au = ''https:''
                    then Some (url_toString P au) else None))"

text \<open>\<open>try { origin = new URL(s).origin; } catch { }\<close>, starting from \<open>null\<close>.\<close>

definition originOf :: "'u platform \<Rightarrow> string \<Rightarrow> string option" where
  "originOf P s = map_option (url_origin P) (url_new P s)"


section \<open>Data model\<close>

text \<open>
  The types of the crawler module.  An edge's \<open>type\<close> is an action type or \<open>"transition"\<close>.
  Optional fields are \<open>option\<close>s.  \<open>maxDepth\<close>, \<open>maxPages\<close>, \<open>concurrency\<close> and
  \<open>transitionsPerPage\<close> are counts and are modelled as natural numbers.  The screenshot
  path, \<open>delayMs\<close> and the two output directories only drive file-system effects and the
  pause between layers; they are left out, as are the screenshot and JSONL files
  themselves.
\<close>

datatype action_type = Navigate | Click | Toggle

datatype edge_type = Act action_type | Transition

record action =
  a_type :: action_type
  a_label :: string
  a_href :: "string option"
  a_selector :: string
  a_options :: "string list option"

record transition =
  triggerLabel :: string
  triggerSelector :: string
  t_actions :: "action list"
  added :: "string list"
  removed :: "string list"

record edge =
  e_to :: string
  e_label :: string
  e_type :: edge_type
  e_options :: "string list option"

record pageVisit =
  p_url :: string
  p_title :: string
  p_depth :: nat
  p_actions :: "action list"

record frontierEntry =
  f_url :: string
  f_depth :: nat
  f_origin :: "string option"

record visitResult =
  normalized :: string
  v_title :: string
  v_actions :: "action list"
  v_transitions :: "transition list"

record crawlOptions =
  seeds :: "string list"
  maxDepth :: "nat option"
  maxPages :: "nat option"
  sameOrigin :: "bool option"
  concurrency :: "nat option"
  discoverTransitions :: "bool option"
  transitionsPerPage :: "nat option"

text \<open>
  The two \<open>Record<string, ...>\<close> objects are association lists in insertion order:
  \<open>AList.update\<close> overwrites the value of a present key in place and appends a new key,
  as property assignment does.  \<open>visited\<close> is the \<open>Set<string>\<close>.
\<close>

record crawlState =
  visited :: "string set"
  pages :: "pageVisit list"
  graph :: "(string \<times> string list) list"
  actionGraph :: "(string \<times> edge list) list"

record crawlResult =
  r_pages :: "pageVisit list"
  r_graph :: "(string \<times> string list) list"
  r_actionGraph :: "(string \<times> edge list) list"

section \<open>The browser\<close>

text \<open>
  What the browser and the site do is a parameter of the crawl.  Visiting a URL either
  throws somewhere in the per-page pipeline (\<open>Crashed\<close>) or yields a loaded page: the URL
  the browser ended on, the title, the actions \<open>Extractor.extract\<close> returned, and what
  probing the page's triggers would observe.  A \<open>probe\<close> is one trigger of
  \<open>Extractor.discoverTransitions\<close> with the labels of the elements found in its scope
  before and after the click, in document order, empty labels included; \<open>probed pl k\<close> is
  the list for \<open>maxTriggers = k\<close>, and \<open>None\<close> when probing throws.
\<close>

record probe =
  trigLabel :: string
  trigSelector :: string
  preFound :: "string list"
  postFound :: "string list"

record pageLoad =
  currentUrl :: string
  l_title :: string
  extracted :: "action list"
  probed :: "nat \<Rightarrow> probe list option"

datatype outcome = Crashed | Loaded pageLoad

text \<open>\<open>[...new Set(xs)]\<close>: the first occurrence of every element, in order.\<close>

fun uniqFrom :: "'a list \<Rightarrow> 'a list \<Rightarrow> 'a list" where
  "uniqFrom seen [] = []"
| "uniqFrom seen (x # xs) =
     (if x \<in> set seen then uniqFrom seen xs else x # uniqFrom (x # seen) xs)"

definition uniq :: "'a list \<Rightarrow> 'a list" where
  "uniq xs = uniqFrom [] xs"

text \<open>
  \<open>collect\<close> of \<open>collectScopedLabels\<close>: empty labels are skipped, the scan stops at forty
  labels, and duplicates are dropped.
\<close>

definition collectLabels :: "string list \<Rightarrow> string list" where
  "collectLabels found = uniq (take 40 (filter (\<lambda>l. l \<noteq> []) found))"

text \<open>
  The tail of \<open>Extractor.discoverTransitions\<close>: \<open>added\<close> are the post-click labels absent
  before, \<open>removed\<close> the pre-click labels absent after, and every post-click label becomes a
  click action of the transition.
\<close>

definition probeTransition :: "probe \<Rightarrow> transition" where
  "probeTransition t =
     (let preLabels = collectLabels (preFound t);
          postLabels = collectLabels (postFound t)
      in \<lparr> triggerLabel = trigLabel t, triggerSelector = trigSelector t,
           t_actions = map (\<lambda>l. \<lparr> a_type = Click, a_label = l, a_href = None,
                                   a_selector = [], a_options = None \<rparr>) postLabels,
           added = filter (\<lambda>l. l \<notin> set preLabels) postLabels,
           removed = filter (\<lambda>l. l \<notin> set postLabels) preLabels \<rparr>)"

definition discoverTransitionsOn :: "probe list \<Rightarrow> transition list" where
  "discoverTransitionsOn ps = map probeTransition ps"

section \<open>The crawler\<close>

text \<open>The option defaults and clamps at the head of \<open>Crawler.crawl\<close>.\<close>

definition maxDepthOf :: "crawlOptions \<Rightarrow> nat" where
  "maxDepthOf opts = (case maxDepth opts of None \<Rightarrow> 1 | Some d \<Rightarrow> d)"

definition maxPagesOf :: "crawlOptions \<Rightarrow> nat" where
  "maxPagesOf opts = (case maxPages opts of None \<Rightarrow> 50 | Some n \<Rightarrow> n)"

definition sameOriginOf :: "crawlOptions \<Rightarrow> bool" where
  "sameOriginOf opts = (case sameOrigin opts of None \<Rightarrow> True | Some b \<Rightarrow> b)"

definition concurrencyOf :: "crawlOptions \<Rightarrow> nat" where
  "concurrencyOf opts = max 1 (min (case concurrency opts of None \<Rightarrow> 3 | Some c \<Rightarrow> c) 10)"

definition discoverTransitionsOf :: "crawlOptions \<Rightarrow> bool" where
  "discoverTransitionsOf opts = (case discoverTransitions opts of None \<Rightarrow> True | Some b \<Rightarrow> b)"

definition transitionsPerPageOf :: "crawlOptions \<Rightarrow> nat" where
  "transitionsPerPageOf opts =
     max 0 (min (case transitionsPerPage opts of None \<Rightarrow> 12 | Some n \<Rightarrow> n) 50)"

text \<open>
  \<open>Crawler.visit\<close>: a rejected promise is \<open>None\<close>.  Transitions are probed only when
  \<open>discoverTransitions\<close> is set, and a failure of the probing leaves the list empty.
\<close>

definition visit :: "'u platform \<Rightarrow> bool \<Rightarrow> nat \<Rightarrow> outcome \<Rightarrow> visitResult option" where
  "visit P disc tpp oc =
     (case oc of
        Crashed \<Rightarrow> None
      | Loaded pl \<Rightarrow>
          Some \<lparr> normalized = normalizeUrl P (currentUrl pl), v_title = l_title pl,
                 v_actions = extracted pl,
                 v_transitions =
                   (if disc then (case probed pl tpp of None \<Rightarrow> []
                                  | Some ps \<Rightarrow> discoverTransitionsOn ps)
                    else []) \<rparr>)"

text \<open>A string or \<open>null\<close> in a condition: \<open>null\<close> and the empty string are falsy.\<close>

definition truthy :: "string option \<Rightarrow> bool" where
  "truthy s = (s \<noteq> None \<and> s \<noteq> Some [])"

text \<open>
  \<open>actionGraph[k] || []\<close>, \<open>if (!actionGraph[k]) actionGraph[k] = []\<close> and
  \<open>actionGraph[k].push(e)\<close>.  The source pushes only under a key it has just ensured.
\<close>

definition edgesAt :: "(string \<times> edge list) list \<Rightarrow> string \<Rightarrow> edge list" where
  "edgesAt ag k = (case map_of ag k of None \<Rightarrow> [] | Some es \<Rightarrow> es)"

definition ensureKey :: "(string \<times> edge list) list \<Rightarrow> string \<Rightarrow> (string \<times> edge list) list" where
  "ensureKey ag k = (if map_of ag k = None then AList.update k [] ag else ag)"

definition pushEdge ::
  "(string \<times> edge list) list \<Rightarrow> string \<Rightarrow> edge \<Rightarrow> (string \<times> edge list) list" where
  "pushEdge ag k e = AList.update k (edgesAt ag k @ [e]) ag"

text \<open>
  The same-origin test on a resolved target: with \<open>sameOrigin\<close> set and a truthy seed
  origin, a target whose origin differs, or that does not parse, is skipped.
\<close>

definition crossOrigin :: "'u platform \<Rightarrow> bool \<Rightarrow> string option \<Rightarrow> string \<Rightarrow> bool" where
  "crossOrigin P so baseOrigin finalUrl =
     (so \<and> truthy baseOrigin \<and>
      (case url_new P finalUrl of
         None \<Rightarrow> True
       | Some u \<Rightarrow> Some (url_origin P u) \<noteq> baseOrigin))"

text \<open>
  One round of \<open>for (const a of res.actions)\<close>, on the pair \<open>(nextUrls, actionEdges)\<close>.
  Every \<open>continue\<close> returns the pair unchanged.
\<close>

definition actionStep ::
  "'u platform \<Rightarrow> bool \<Rightarrow> string option \<Rightarrow> string set \<Rightarrow> string \<Rightarrow>
   string list \<times> edge list \<Rightarrow> action \<Rightarrow> string list \<times> edge list" where
  "actionStep P so baseOrigin vis n acc a =
     (case acc of (nextUrls, actionEdges) \<Rightarrow>
        if a_type a = Navigate then
          (case resolveHref P n (a_href a) of
             None \<Rightarrow> acc
           | Some au \<Rightarrow>
               if au = [] then acc
               else
                 (let finalUrl = normalizeUrl P au in
                  if crossOrigin P so baseOrigin finalUrl then acc
                  else (if finalUrl \<notin> vis then nextUrls @ [finalUrl] else nextUrls,
                        actionEdges @ [\<lparr> e_to = finalUrl, e_label = a_label a,
                                          e_type = Act Navigate, e_options = None \<rparr>])))
        else (nextUrls,
              actionEdges @ [\<lparr> e_to = n, e_label = a_label a, e_type = Act (a_type a),
                                e_options = a_options a \<rparr>]))"

definition pageEdges ::
  "'u platform \<Rightarrow> bool \<Rightarrow> string option \<Rightarrow> string set \<Rightarrow> string \<Rightarrow> action list \<Rightarrow>
   string list \<times> edge list" where
  "pageEdges P so baseOrigin vis n acts = foldl (actionStep P so baseOrigin vis n) ([], []) acts"

text \<open>
  One round of \<open>for (const opt of combined)\<close>, on \<open>actionGraph\<close>: the edge from the
  transition node to the option node, then the option node's edge, to the target of the
  first navigate edge of the page whose label matches in lower case, or back to the page.
\<close>

definition navMatchOf :: "'u platform \<Rightarrow> edge list \<Rightarrow> string \<Rightarrow> edge option" where
  "navMatchOf P actionEdges opt =
     find (\<lambda>e. e_type e = Act Navigate \<and> e_label e \<noteq> [] \<and>
               toLowerCase P (e_label e) = toLowerCase P opt) actionEdges"

text \<open>The two template strings that name the synthetic nodes.\<close>

definition transitionNodeOf :: "string \<Rightarrow> string \<Rightarrow> string" where
  "transitionNodeOf n trigger = n @ ''::TRANS::'' @ trigger"

definition optNodeOf :: "string \<Rightarrow> string \<Rightarrow> string" where
  "optNodeOf transitionNode opt = transitionNode @ ''::OPT::'' @ opt"

text \<open>The edge pushed under the option node, by the outcome of the match.\<close>

definition optionEdge :: "'u platform \<Rightarrow> string \<Rightarrow> edge list \<Rightarrow> string \<Rightarrow> edge" where
  "optionEdge P n actionEdges opt =
     (case navMatchOf P actionEdges opt of
        Some m \<Rightarrow>
          \<lparr> e_to = e_to m, e_label = (if e_label m \<noteq> [] then e_label m else opt),
            e_type = Act Navigate, e_options = None \<rparr>
      | None \<Rightarrow> \<lparr> e_to = n, e_label = opt, e_type = Act Click, e_options = None \<rparr>)"

definition optionStep ::
  "'u platform \<Rightarrow> string \<Rightarrow> string \<Rightarrow> edge list \<Rightarrow>
   (string \<times> edge list) list \<Rightarrow> string \<Rightarrow> (string \<times> edge list) list" where
  "optionStep P n transitionNode actionEdges ag opt =
     (if opt = [] then ag
      else
        (let optNode = optNodeOf transitionNode opt;
             ag1 = pushEdge ag transitionNode
                     \<lparr> e_to = optNode, e_label = opt, e_type = Act Click, e_options = None \<rparr>;
             ag2 = ensureKey ag1 optNode
         in pushEdge ag2 optNode (optionEdge P n actionEdges opt)))"

text \<open>
  One round of \<open>for (const tr of res.transitions)\<close>, on the pair
  \<open>(actionEdges, actionGraph)\<close>.  \<open>combined\<close> is \<open>added\<close>, or \<open>removed\<close> when \<open>added\<close> is
  empty, without duplicates.
\<close>

definition combinedOf :: "transition \<Rightarrow> string list" where
  "combinedOf tr = uniq (added tr @ (if added tr \<noteq> [] then [] else removed tr))"

definition transitionEdge :: "string \<Rightarrow> string \<Rightarrow> edge" where
  "transitionEdge n trigger =
     \<lparr> e_to = transitionNodeOf n trigger, e_label = trigger, e_type = Transition,
       e_options = None \<rparr>"

definition transitionStep ::
  "'u platform \<Rightarrow> string \<Rightarrow> edge list \<times> (string \<times> edge list) list \<Rightarrow> transition \<Rightarrow>
   edge list \<times> (string \<times> edge list) list" where
  "transitionStep P n acc tr =
     (case acc of (actionEdges, ag) \<Rightarrow>
        (let trigger = triggerLabel tr in
         if trigger = [] then acc
         else
           (let transitionNode = transitionNodeOf n trigger;
                actionEdges1 = actionEdges @ [transitionEdge n trigger];
                combined = combinedOf tr;
                ag1 = ensureKey ag transitionNode
            in (actionEdges1,
                foldl (optionStep P n transitionNode actionEdges1) ag1 combined))))"

text \<open>
  \<open>filteredEdges\<close>: an edge that is neither a navigate nor a transition edge is dropped
  when its label is the label of a transition edge.
\<close>

definition filterEdges :: "edge list \<Rightarrow> edge list" where
  "filterEdges actionEdges =
     (let transitionLabels = set (map e_label (filter (\<lambda>e. e_type e = Transition) actionEdges))
      in filter (\<lambda>e. \<not> (e_type e \<noteq> Act Navigate \<and> e_type e \<noteq> Transition \<and>
                         e_label e \<in> transitionLabels)) actionEdges)"

text \<open>
  The body of \<open>for (const r of results)\<close> for a fulfilled result, on the crawl state and
  \<open>nextFrontierCandidates\<close>.
\<close>

definition mergeResult ::
  "'u platform \<Rightarrow> bool \<Rightarrow> nat \<Rightarrow> crawlState \<times> frontierEntry list \<Rightarrow>
   frontierEntry \<times> visitResult \<Rightarrow> crawlState \<times> frontierEntry list" where
  "mergeResult P so md acc r =
     (case acc of (st, cands) \<Rightarrow> case r of (input, res) \<Rightarrow>
        (let baseOrigin = f_origin input; n = normalized res in
         if n \<in> visited st then acc
         else
           (let vis = insert n (visited st);
                (nextUrls, actionEdges0) = pageEdges P so baseOrigin vis n (v_actions res);
                (actionEdges, ag) =
                   foldl (transitionStep P n) (actionEdges0, actionGraph st) (v_transitions res);
                filteredEdges = filterEdges actionEdges;
                st1 = \<lparr> visited = vis,
                        pages = pages st @ [\<lparr> p_url = n, p_title = v_title res,
                                               p_depth = f_depth input,
                                               p_actions = v_actions res \<rparr>],
                        graph = AList.update n nextUrls (graph st),
                        actionGraph = AList.update n (edgesAt ag n @ filteredEdges) ag \<rparr>;
                childDepth = f_depth input + 1
            in (st1,
                if childDepth \<le> md
                then cands @ map (\<lambda>nurl. \<lparr> f_url = nurl, f_depth = childDepth,
                                              f_origin = baseOrigin \<rparr>) nextUrls
                else cands))))"

text \<open>A settled promise: \<open>None\<close> is rejected and skipped.\<close>

definition mergeSettled ::
  "'u platform \<Rightarrow> bool \<Rightarrow> nat \<Rightarrow> crawlState \<times> frontierEntry list \<Rightarrow>
   (frontierEntry \<times> visitResult) option \<Rightarrow> crawlState \<times> frontierEntry list" where
  "mergeSettled P so md acc r = (case r of None \<Rightarrow> acc | Some v \<Rightarrow> mergeResult P so md acc v)"

text \<open>
  The promise of the \<open>j\<close>-th entry of the chunk that starts at index \<open>i\<close> of the layer.
  The site is asked with the position of the entry in the layer, so that two visits of one
  URL may differ.
\<close>

definition settle ::
  "'u platform \<Rightarrow> crawlOptions \<Rightarrow> (nat \<Rightarrow> string \<Rightarrow> outcome) \<Rightarrow> nat \<Rightarrow>
   nat \<times> frontierEntry \<Rightarrow> (frontierEntry \<times> visitResult) option" where
  "settle P opts site i jf =
     (case jf of (j, f) \<Rightarrow>
        map_option (Pair f)
          (visit P (discoverTransitionsOf opts) (transitionsPerPageOf opts)
             (site (i + j) (f_url f))))"

text \<open>\<open>for (let i = 0; i < toVisit.length; i += concurrency)\<close>.\<close>

function visitChunks ::
  "'u platform \<Rightarrow> crawlOptions \<Rightarrow> (nat \<Rightarrow> string \<Rightarrow> outcome) \<Rightarrow> frontierEntry list \<Rightarrow>
   nat \<Rightarrow> crawlState \<times> frontierEntry list \<Rightarrow> crawlState \<times> frontierEntry list" where
  "visitChunks P opts site toVisit i acc =
     (if i < length toVisit
      then
        (let chunk = take (concurrencyOf opts) (drop i toVisit);
             results = map (settle P opts site i) (enumerate 0 chunk)
         in visitChunks P opts site toVisit (i + concurrencyOf opts)
              (foldl (mergeSettled P (sameOriginOf opts) (maxDepthOf opts)) acc results))
      else acc)"
  by pat_completeness auto
termination
  by (relation "measure (\<lambda>(P, opts, site, toVisit, i, acc). length toVisit - i)")
     (auto simp: concurrencyOf_def)

text \<open>The de-duplication of \<open>nextFrontierCandidates\<close> into \<open>nextFrontier\<close>.\<close>

fun nextFrontierOf :: "string set \<Rightarrow> string set \<Rightarrow> frontierEntry list \<Rightarrow> frontierEntry list" where
  "nextFrontierOf vis seenNext [] = []"
| "nextFrontierOf vis seenNext (c # cs) =
     (if f_url c \<in> vis then nextFrontierOf vis seenNext cs
      else if f_url c \<in> seenNext then nextFrontierOf vis seenNext cs
      else c # nextFrontierOf vis (insert (f_url c) seenNext) cs)"

text \<open>
  \<open>for (let depth = 0; depth <= maxDepth && frontier.length > 0 && pages.length < maxPages; depth++)\<close>.
  The site is asked with the depth of the layer and the position in it.
\<close>

function crawlLoop ::
  "'u platform \<Rightarrow> crawlOptions \<Rightarrow> (nat \<Rightarrow> nat \<Rightarrow> string \<Rightarrow> outcome) \<Rightarrow> nat \<Rightarrow>
   frontierEntry list \<Rightarrow> crawlState \<Rightarrow> crawlState" where
  "crawlLoop P opts site depth frontier st =
     (if depth \<le> maxDepthOf opts \<and> frontier \<noteq> [] \<and> length (pages st) < maxPagesOf opts
      then
        (let currentLayer = filter (\<lambda>f. f_depth f = depth) frontier in
         if currentLayer = [] then crawlLoop P opts site (depth + 1) frontier st
         else
           (let toVisit = take (maxPagesOf opts - length (pages st))
                            (filter (\<lambda>f. f_url f \<notin> visited st) currentLayer);
                merged = visitChunks P opts (site depth) toVisit 0 (st, [])
            in crawlLoop P opts site (depth + 1)
                 (nextFrontierOf (visited (fst merged)) {} (snd merged)) (fst merged)))
      else st)"
  by pat_completeness auto
termination
  by (relation "measure (\<lambda>(P, opts, site, depth, frontier, st). Suc (maxDepthOf opts) - depth)")
     auto

definition seedFrontier :: "'u platform \<Rightarrow> string list \<Rightarrow> frontierEntry list" where
  "seedFrontier P ss =
     map (\<lambda>s. \<lparr> f_url = normalizeUrl P s, f_depth = 0, f_origin = originOf P s \<rparr>) ss"

definition emptyState :: crawlState where
  "emptyState = \<lparr> visited = {}, pages = [], graph = [], actionGraph = [] \<rparr>"

definition crawlFinal ::
  "'u platform \<Rightarrow> crawlOptions \<Rightarrow> (nat \<Rightarrow> nat \<Rightarrow> string \<Rightarrow> outcome) \<Rightarrow> crawlState" where
  "crawlFinal P opts site = crawlLoop P opts site 0 (seedFrontier P (seeds opts)) emptyState"

definition crawl ::
  "'u platform \<Rightarrow> crawlOptions \<Rightarrow> (nat \<Rightarrow> nat \<Rightarrow> string \<Rightarrow> outcome) \<Rightarrow> crawlResult" where
  "crawl P opts site =
     (let st = crawlFinal P opts site
      in \<lparr> r_pages = pages st, r_graph = graph st, r_actionGraph = actionGraph st \<rparr>)"

section \<open>What one round adds under a key\<close>

text \<open>
  Two auxiliary notions for the proofs: the edges that one round of the option loop, and
  one round of the transition loop, append to \<open>actionGraph[k]\<close>.
\<close>

definition optionEdgesAt ::
  "'u platform \<Rightarrow> string \<Rightarrow> string \<Rightarrow> edge list \<Rightarrow> string \<Rightarrow> string \<Rightarrow> edge list" where
  "optionEdgesAt P n transitionNode actionEdges k opt =
     (if opt = [] then []
      else (if k = transitionNode
            then [\<lparr> e_to = optNodeOf transitionNode opt, e_label = opt, e_type = Act Click,
                     e_options = None \<rparr>]
            else []) @
           (if k = optNodeOf transitionNode opt then [optionEdge P n actionEdges opt] else []))"

definition transitionEdgesAt ::
  "'u platform \<Rightarrow> string \<Rightarrow> edge list \<Rightarrow> string \<Rightarrow> transition \<Rightarrow> edge list" where
  "transitionEdgesAt P n actionEdges k tr =
     (if triggerLabel tr = [] then []
      else concat (map (optionEdgesAt P n (transitionNodeOf n (triggerLabel tr)) actionEdges k)
                     (combinedOf tr)))"

text \<open>
  The invariant behind the suppression of duplicate self-loops: under every key, a
  transition edge or a click or toggle self-loop is found only when the key is a visited
  page, and no such self-loop has the label of a transition edge under the same key.
\<close>

definition noDuplicateLoops :: "crawlState \<Rightarrow> bool" where
  "noDuplicateLoops st =
     (\<forall>k. \<forall>e \<in> set (edgesAt (actionGraph st) k).
        (e_type e = Transition \<longrightarrow> k \<in> visited st) \<and>
        ((e_type e = Act Click \<or> e_type e = Act Toggle) \<and> e_to e = k \<longrightarrow>
           k \<in> visited st \<and>
           (\<forall>t \<in> set (edgesAt (actionGraph st) k). e_type t = Transition \<longrightarrow>
              e_label t \<noteq> e_label e)))"

section \<open>DOT export\<close>

text \<open>
  \<open>toDot\<close> builds a list of lines and joins them with newlines.  The lines are kept
  structured here: a fixed line, a node declaration, or an edge line, each with its
  rendering.  A node declaration carries the escaped node id, the escaped label and
  tooltip, colour, style and the extra attributes; an edge line carries the escaped source
  and target and its attribute text.
\<close>

definition replaceAll :: "char \<Rightarrow> string \<Rightarrow> string \<Rightarrow> string" where
  "replaceAll c r s = concat (map (\<lambda>x. if x = c then r else [x]) s)"

definition esc :: "string \<Rightarrow> string" where
  "esc s = replaceAll (CHR 0x22) [CHR 0x5C, CHR 0x22]
             (replaceAll (CHR 0x5C) [CHR 0x5C, CHR 0x5C] s)"

definition dq :: string where
  "dq = [CHR 0x22]"

text \<open>The three non-ASCII literals of the source, as UTF-8 bytes.\<close>

definition ellipsis :: string where
  "ellipsis = [CHR 0xE2, CHR 0x80, CHR 0xA6]"

definition triangle :: string where
  "triangle = [CHR 0xE2, CHR 0x96, CHR 0xB6, CHR 0x20]"

definition bullet :: string where
  "bullet = [CHR 0xE2, CHR 0x80, CHR 0xA2, CHR 0x20]"

definition truncateLabel :: "string \<Rightarrow> string" where
  "truncateLabel s = (if length s > 120 then take 117 s @ ellipsis else s)"

definition labelFor :: "'u platform \<Rightarrow> string \<Rightarrow> string" where
  "labelFor P url =
     (case url_new P url of
        Some u \<Rightarrow>
          (let pq = url_pathname P u @ url_search P u;
               pathq = (if pq = [] then ''/'' else pq)
           in truncateLabel pathq)
      | None \<Rightarrow>
          (let tIx = indexOf url ''::TRANS::'';
               oIx = indexOf url ''::OPT::''
           in if tIx \<noteq> None \<and> oIx = None then triangle @ drop (the tIx + 9) url
              else if oIx \<noteq> None then bullet @ drop (the oIx + 7) url
              else truncateLabel url))"

datatype dotLine =
    Plain string
  | Decl string string string string string string
  | Arrow string string string

fun render :: "dotLine \<Rightarrow> string" where
  "render (Plain s) = s"
| "render (Decl i l t c s x) =
     ''  '' @ dq @ i @ dq @ '' [label='' @ dq @ l @ dq @ '', tooltip='' @ dq @ t @ dq @
     '', color='' @ dq @ c @ dq @ '', style='' @ dq @ s @ dq @ x @ ''];''"
| "render (Arrow s d a) = ''  '' @ dq @ s @ dq @ '' -> '' @ dq @ d @ dq @ a @ '';''"

fun declId :: "dotLine \<Rightarrow> string option" where
  "declId (Decl i l t c s x) = Some i"
| "declId other = None"

text \<open>\<open>nodes.add(n)\<close> on the insertion-ordered \<open>Set\<close>.\<close>

definition addNode :: "string list \<Rightarrow> string \<Rightarrow> string list" where
  "addNode ns n = (if n \<in> set ns then ns else ns @ [n])"

definition dotNodes :: "crawlResult \<Rightarrow> string list" where
  "dotNodes r =
     (let n0 = foldl addNode [] (map fst (r_graph r));
          n1 = foldl (\<lambda>ns kv. foldl addNode ns (snd kv)) n0 (r_graph r)
      in foldl (\<lambda>ns kv. foldl addNode (addNode ns (fst kv)) (map e_to (snd kv))) n1
           (r_actionGraph r))"

definition declLine :: "'u platform \<Rightarrow> string \<Rightarrow> dotLine" where
  "declLine P n =
     (let isTrans = includesStr n ''::TRANS::'';
          isOpt = includesStr n ''::OPT::''
      in Decl (esc n) (esc (labelFor P n)) (esc n)
           (if isOpt then ''gray50'' else if isTrans then ''dodgerblue'' else ''black'')
           (if isOpt then ''dashed,rounded'' else if isTrans then ''dashed,rounded''
            else ''rounded'')
           (if isOpt then '', fillcolor='' @ dq @ ''whitesmoke'' @ dq else []))"

definition navLine :: "crawlResult \<Rightarrow> string \<Rightarrow> string \<Rightarrow> dotLine" where
  "navLine r src dst =
     (let acts = filter (\<lambda>e. e_type e = Act Navigate \<and> e_to e = dst)
                   (edgesAt (r_actionGraph r) src);
          lbl = esc (case acts of [] \<Rightarrow> [] | a # rest \<Rightarrow> e_label a)
      in if lbl \<noteq> [] then Arrow (esc src) (esc dst) ('' [label='' @ dq @ lbl @ dq @ '']'')
         else Arrow (esc src) (esc dst) [])"

definition navLines :: "crawlResult \<Rightarrow> dotLine list" where
  "navLines r = concat (map (\<lambda>kv. map (navLine r (fst kv)) (uniq (snd kv))) (r_graph r))"

definition actionLine :: "string \<Rightarrow> edge \<Rightarrow> dotLine list" where
  "actionLine src e =
     (if e_type e = Act Navigate then
        (if includesStr src ''::TRANS::'' \<or> includesStr src ''::OPT::''
         then [Arrow (esc src) (esc (e_to e)) ('' [label='' @ dq @ esc (e_label e) @ dq @ '']'')]
         else [])
      else if e_type e = Transition then
        [Arrow (esc src) (esc (e_to e))
           ('' [style=dotted, color=dodgerblue, label='' @ dq @ esc (e_label e) @ dq @ '']'')]
      else
        [Arrow (esc src) (esc (e_to e))
           ('' [style=dashed, color=gray50, label='' @ dq @ esc (e_label e) @ dq @ '']'')])"

definition actionLines :: "crawlResult \<Rightarrow> dotLine list" where
  "actionLines r = concat (map (\<lambda>kv. concat (map (actionLine (fst kv)) (snd kv))) (r_actionGraph r))"

definition toDotLines :: "'u platform \<Rightarrow> crawlResult \<Rightarrow> dotLine list" where
  "toDotLines P r =
     [Plain ''digraph G {'', Plain ''  rankdir=LR;'',
      Plain ''  node [shape=box, style=rounded, fontsize=10];''] @
     map (declLine P) (dotNodes r) @ navLines r @ actionLines r @ [Plain ''}'']"

fun joinLines :: "string list \<Rightarrow> string" where
  "joinLines [] = []"
| "joinLines [l] = l"
| "joinLines (l # ls) = l @ [CHR 0x0A] @ joinLines ls"

definition toDot :: "'u platform \<Rightarrow> crawlResult \<Rightarrow> string" where
  "toDot P r = joinLines (map render (toDotLines P r))"

section \<open>A finite fragment of the URL class\<close>

text \<open>
  A concrete platform over nine URLs, used to run the crawler on an example site.  On
  these URLs the operations agree with the URL class of the runtime: the fragment of
  \<open>https://example.com/a#frag\<close> is cleared to \<open>https://example.com/a\<close>, the pathname
  \<open>/docs/\<close> is set to \<open>/docs\<close>, and the pathname setter does nothing on \<open>mailto:a/\<close>,
  whose path is opaque.  Strings outside the fragment are rejected.
\<close>

datatype toy_url = UAfrag | UA | UDocsSlash | UDocs | UProfile | UBroken | URoot | UOther | UMail

fun toy_toString :: "toy_url \<Rightarrow> string" where
  "toy_toString UAfrag = ''https://example.com/a#frag''"
| "toy_toString UA = ''https://example.com/a''"
| "toy_toString UDocsSlash = ''https://example.com/docs/''"
| "toy_toString UDocs = ''https://example.com/docs''"
| "toy_toString UProfile = ''https://example.com/profile''"
| "toy_toString UBroken = ''https://example.com/broken''"
| "toy_toString URoot = ''https://example.com/''"
| "toy_toString UOther = ''https://other.org/x''"
| "toy_toString UMail = ''mailto:a/''"

definition toy_new :: "string \<Rightarrow> toy_url option" where
  "toy_new s =
     (if s = ''https://example.com/a#frag'' then Some UAfrag
      else if s = ''https://example.com/a'' then Some UA
      else if s = ''https://example.com/docs/'' then Some UDocsSlash
      else if s = ''https://example.com/docs'' then Some UDocs
      else if s = ''https://example.com/profile'' then Some UProfile
      else if s = ''https://example.com/broken'' then Some UBroken
      else if s = ''https://example.com/'' then Some URoot
      else if s = ''https://other.org/x'' then Some UOther
      else if s = ''mailto:a/'' then Some UMail
      else None)"

fun toy_protocol :: "toy_url \<Rightarrow> string" where
  "toy_protocol UMail = ''mailto:''"
| "toy_protocol u = ''https:''"

fun toy_origin :: "toy_url \<Rightarrow> string" where
  "toy_origin UMail = ''null''"
| "toy_origin UOther = ''https://other.org''"
| "toy_origin u = ''https://example.com''"

fun toy_pathname :: "toy_url \<Rightarrow> string" where
  "toy_pathname UAfrag = ''/a''"
| "toy_pathname UA = ''/a''"
| "toy_pathname UDocsSlash = ''/docs/''"
| "toy_pathname UDocs = ''/docs''"
| "toy_pathname UProfile = ''/profile''"
| "toy_pathname UBroken = ''/broken''"
| "toy_pathname URoot = ''/''"
| "toy_pathname UOther = ''/x''"
| "toy_pathname UMail = ''a/''"

fun toy_hash :: "toy_url \<Rightarrow> string" where
  "toy_hash UAfrag = ''#frag''"
| "toy_hash u = []"

fun toy_clear_hash :: "toy_url \<Rightarrow> toy_url" where
  "toy_clear_hash UAfrag = UA"
| "toy_clear_hash u = u"

fun toy_set_pathname :: "toy_url \<Rightarrow> string \<Rightarrow> toy_url" where
  "toy_set_pathname UDocsSlash p = (if p = ''/docs'' then UDocs else UDocsSlash)"
| "toy_set_pathname u p = u"

text \<open>
  \<open>new URL(h, b)\<close>: an invalid base throws; the three relative references of the example
  site resolve against a base of origin \<open>https://example.com\<close>; any other href is taken as
  an absolute URL.
\<close>

definition toy_new_base :: "string \<Rightarrow> string \<Rightarrow> toy_url option" where
  "toy_new_base h b =
     (case toy_new b of
        None \<Rightarrow> None
      | Some bu \<Rightarrow>
          if toy_origin bu = ''https://example.com'' \<and> h = ''/docs/'' then Some UDocsSlash
          else if toy_origin bu = ''https://example.com'' \<and> h = ''/a'' then Some UA
          else if toy_origin bu = ''https://example.com'' \<and> h = ''/profile'' then Some UProfile
          else if toy_origin bu = ''https://example.com'' \<and> h = ''/broken'' then Some UBroken
          else toy_new h)"

text \<open>ASCII lower-casing.\<close>

definition toy_lower :: "string \<Rightarrow> string" where
  "toy_lower s =
     map (\<lambda>c. if (65::nat) \<le> of_char c \<and> of_char c \<le> (90::nat)
              then char_of (of_char c + (32::nat)) else c) s"

definition toy_platform :: "toy_url platform" where
  "toy_platform =
     \<lparr> url_new = toy_new, url_new_base = toy_new_base, url_toString = toy_toString,
       url_protocol = toy_protocol, url_origin = toy_origin, url_pathname = toy_pathname,
       url_search = (\<lambda>u. []), url_hash = toy_hash, url_clear_hash = toy_clear_hash,
       url_set_pathname = toy_set_pathname, toLowerCase = toy_lower \<rparr>"

section \<open>An example site\<close>

text \<open>
  A site of two pages on \<open>https://example.com\<close>.  Page \<open>/a\<close> links to \<open>/docs/\<close>, to
  another origin and to \<open>/profile\<close>, and has two buttons: probing \<open>Menu\<close> reveals the labels
  \<open>Profile\<close> and \<open>Logout\<close>, probing \<open>Help\<close> changes nothing.  Page \<open>/docs\<close> links back to
  \<open>/a\<close> and on to \<open>/broken\<close>.  Every other visit, \<open>/profile\<close> among them, throws.
\<close>

definition nav :: "string \<Rightarrow> string \<Rightarrow> action" where
  "nav l h = \<lparr> a_type = Navigate, a_label = l, a_href = Some h, a_selector = ''a'',
               a_options = None \<rparr>"

definition btn :: "string \<Rightarrow> action" where
  "btn l = \<lparr> a_type = Click, a_label = l, a_href = None, a_selector = ''button'',
             a_options = None \<rparr>"

definition demo_pageA :: pageLoad where
  "demo_pageA =
     \<lparr> currentUrl = ''https://example.com/a'', l_title = ''A'',
       extracted = [nav ''Docs'' ''/docs/'', nav ''Partner'' ''https://other.org/x'',
                    btn ''Menu'', nav ''Profile'' ''/profile'', btn ''Help''],
       probed = (\<lambda>k. Some [\<lparr> trigLabel = ''Menu'', trigSelector = ''button'',
                                preFound = [], postFound = [''Profile'', [], ''Logout'', ''Profile''] \<rparr>,
                              \<lparr> trigLabel = ''Help'', trigSelector = ''button'',
                                preFound = [], postFound = [] \<rparr>]) \<rparr>"

definition demo_pageDocs :: pageLoad where
  "demo_pageDocs =
     \<lparr> currentUrl = ''https://example.com/docs/'', l_title = ''Docs'',
       extracted = [nav ''Back'' ''/a'', nav ''Gone'' ''/broken''],
       probed = (\<lambda>k. Some []) \<rparr>"

definition demo_site :: "nat \<Rightarrow> nat \<Rightarrow> string \<Rightarrow> outcome" where
  "demo_site d k url =
     (if url = ''https://example.com/a'' then Loaded demo_pageA
      else if url = ''https://example.com/docs'' then Loaded demo_pageDocs
      else Crashed)"

definition demo_opts :: crawlOptions where
  "demo_opts =
     \<lparr> seeds = [''https://example.com/a#frag''], maxDepth = Some 1, maxPages = Some 10,
       sameOrigin = None, concurrency = None, discoverTransitions = None,
       transitionsPerPage = None \<rparr>"

text \<open>
  The two fulfilled visits of the example crawl, with the frontier entries they answer, and
  the state between the two merges.
\<close>

definition demo_seedEntry :: frontierEntry where
  "demo_seedEntry =
     \<lparr> f_url = ''https://example.com/a'', f_depth = 0, f_origin = Some ''https://example.com'' \<rparr>"

definition demo_docsEntry :: frontierEntry where
  "demo_docsEntry =
     \<lparr> f_url = ''https://example.com/docs'', f_depth = 1,
       f_origin = Some ''https://example.com'' \<rparr>"

definition demo_profileEntry :: frontierEntry where
  "demo_profileEntry =
     \<lparr> f_url = ''https://example.com/profile'', f_depth = 1,
       f_origin = Some ''https://example.com'' \<rparr>"

definition demo_menu :: transition where
  "demo_menu =
     \<lparr> triggerLabel = ''Menu'', triggerSelector = ''button'',
       t_actions = [\<lparr> a_type = Click, a_label = ''Profile'', a_href = None, a_selector = [],
                      a_options = None \<rparr>,
                    \<lparr> a_type = Click, a_label = ''Logout'', a_href = None, a_selector = [],
                      a_options = None \<rparr>],
       added = [''Profile'', ''Logout''], removed = [] \<rparr>"

definition demo_help :: transition where
  "demo_help =
     \<lparr> triggerLabel = ''Help'', triggerSelector = ''button'', t_actions = [],
       added = [], removed = [] \<rparr>"

definition demo_resA :: visitResult where
  "demo_resA =
     \<lparr> normalized = ''https://example.com/a'', v_title = ''A'',
       v_actions = extracted demo_pageA, v_transitions = [demo_menu, demo_help] \<rparr>"

definition demo_resDocs :: visitResult where
  "demo_resDocs =
     \<lparr> normalized = ''https://example.com/docs'', v_title = ''Docs'',
       v_actions = extracted demo_pageDocs, v_transitions = [] \<rparr>"

definition demo_graphA :: "(string \<times> edge list) list" where
  "demo_graphA =
     [(''https://example.com/a::TRANS::Menu'',
       [\<lparr> e_to = ''https://example.com/a::TRANS::Menu::OPT::Profile'',
          e_label = ''Profile'', e_type = Act Click, e_options = None \<rparr>,
        \<lparr> e_to = ''https://example.com/a::TRANS::Menu::OPT::Logout'',
          e_label = ''Logout'', e_type = Act Click, e_options = None \<rparr>]),
      (''https://example.com/a::TRANS::Menu::OPT::Profile'',
       [\<lparr> e_to = ''https://example.com/profile'', e_label = ''Profile'',
          e_type = Act Navigate, e_options = None \<rparr>]),
      (''https://example.com/a::TRANS::Menu::OPT::Logout'',
       [\<lparr> e_to = ''https://example.com/a'', e_label = ''Logout'',
          e_type = Act Click, e_options = None \<rparr>]),
      (''https://example.com/a::TRANS::Help'', []),
      (''https://example.com/a'',
       [\<lparr> e_to = ''https://example.com/docs'', e_label = ''Docs'',
          e_type = Act Navigate, e_options = None \<rparr>,
        \<lparr> e_to = ''https://example.com/profile'', e_label = ''Profile'',
          e_type = Act Navigate, e_options = None \<rparr>,
        \<lparr> e_to = ''https://example.com/a::TRANS::Menu'', e_label = ''Menu'',
          e_type = Transition, e_options = None \<rparr>,
        \<lparr> e_to = ''https://example.com/a::TRANS::Help'', e_label = ''Help'',
          e_type = Transition, e_options = None \<rparr>])]"

definition demo_stateA :: crawlState where
  "demo_stateA =
     \<lparr> visited = {''https://example.com/a''},
       pages = [\<lparr> p_url = ''https://example.com/a'', p_title = ''A'', p_depth = 0,
                  p_actions = extracted demo_pageA \<rparr>],
       graph = [(''https://example.com/a'',
                 [''https://example.com/docs'', ''https://example.com/profile''])],
       actionGraph = demo_graphA \<rparr>"

definition demo_state :: crawlState where
  "demo_state =
     \<lparr> visited = {''https://example.com/docs'', ''https://example.com/a''},
       pages =
         [\<lparr> p_url = ''https://example.com/a'', p_title = ''A'', p_depth = 0,
            p_actions = extracted demo_pageA \<rparr>,
          \<lparr> p_url = ''https://example.com/docs'', p_title = ''Docs'', p_depth = 1,
            p_actions = extracted demo_pageDocs \<rparr>],
       graph =
         [(''https://example.com/a'',
           [''https://example.com/docs'', ''https://example.com/profile'']),
          (''https://example.com/docs'', [''https://example.com/broken''])],
       actionGraph =
         demo_graphA @
         [(''https://example.com/docs'',
           [\<lparr> e_to = ''https://example.com/a'', e_label = ''Back'',
              e_type = Act Navigate, e_options = None \<rparr>,
            \<lparr> e_to = ''https://example.com/broken'', e_label = ''Gone'',
              e_type = Act Navigate, e_options = None \<rparr>])] \<rparr>"

text \<open>
  A small crawl result for the DOT export, with a trigger label that holds a double quote
  and a backslash.
\<close>

definition demo_quoted :: string where
  "demo_quoted = ''Say '' @ [CHR 0x22] @ ''hi'' @ [CHR 0x22, CHR 0x5C]"

definition demo_dotResult :: crawlResult where
  "demo_dotResult =
     \<lparr> r_pages = [],
       r_graph = [(''https://example.com/a'', [''https://example.com/docs''])],
       r_actionGraph =
         [(''https://example.com/a'',
           [\<lparr> e_to = ''https://example.com/docs'', e_label = ''Docs'', e_type = Act Navigate,
              e_options = None \<rparr>,
            transitionEdge ''https://example.com/a'' demo_quoted])] \<rparr>"

section \<open>Canonicalization\<close>









section \<open>The crawl as a sequence of merges\<close>

text \<open>
  The two loops are recursive functions; their defining equations are unfolded by hand.
  An invariant of the crawl state that every merge of a fulfilled visit preserves holds of
  the state the crawl ends in.
\<close>

declare visitChunks.simps [simp del] crawlLoop.simps [simp del]

lemma mergeResult_claimed:
  "normalized res \<in> visited st \<Longrightarrow> mergeResult P so md (st, cands) (input, res) = (st, cands)"
  by (simp add: mergeResult_def)

lemma mergeResult_fresh:
  assumes "normalized res \<notin> visited st"
  shows "mergeResult P so md (st, cands) (input, res) =
     (let n = normalized res;
          vis = insert n (visited st);
          pe = pageEdges P so (f_origin input) vis n (v_actions res);
          tl = foldl (transitionStep P n) (snd pe, actionGraph st) (v_transitions res)
      in (\<lparr> visited = vis,
            pages = pages st @ [\<lparr> p_url = n, p_title = v_title res, p_depth = f_depth input,
                                   p_actions = v_actions res \<rparr>],
            graph = AList.update n (fst pe) (graph st),
            actionGraph = AList.update n (edgesAt (snd tl) n @ filterEdges (fst tl)) (snd tl) \<rparr>,
          if f_depth input + 1 \<le> md
          then cands @ map (\<lambda>nurl. \<lparr> f_url = nurl, f_depth = f_depth input + 1,
                                        f_origin = f_origin input \<rparr>) (fst pe)
          else cands))"
  using assms by (simp add: mergeResult_def Let_def split: prod.splits)

lemma foldl_mergeSettled_inv:
  assumes "I acc"
    and "\<And>acc f r. I acc \<Longrightarrow> Some (f, r) \<in> set rs \<Longrightarrow> I (mergeResult P so md acc (f, r))"
  shows "I (foldl (mergeSettled P so md) acc rs)"
  using assms
proof (induction rs arbitrary: acc)
  case Nil
  then show ?case by simp
next
  case (Cons x xs)
  have "I (mergeSettled P so md acc x)"
  proof (cases x)
    case None
    then show ?thesis using Cons.prems(1) by (simp add: mergeSettled_def)
  next
    case (Some v)
    obtain f r where v: "v = (f, r)" by (cases v)
    show ?thesis using Cons.prems(1) Cons.prems(2) [of acc f r] Some v
      by (simp add: mergeSettled_def)
  qed
  then show ?case using Cons.IH [of "mergeSettled P so md acc x"] Cons.prems(2) by simp
qed

lemma settle_Some:
  assumes "Some (f, r) \<in> set (map (settle P opts site i) (enumerate 0 chunk))"
  shows "f \<in> set chunk \<and>
         (\<exists>oc. visit P (discoverTransitionsOf opts) (transitionsPerPageOf opts) oc = Some r)"
proof -
  from assms obtain j g where jg: "(j, g) \<in> set (enumerate 0 chunk)"
    and s: "settle P opts site i (j, g) = Some (f, r)" by auto
  from jg have "g \<in> set chunk" by (auto simp: in_set_enumerate_eq)
  moreover from s have "g = f" and
    "visit P (discoverTransitionsOf opts) (transitionsPerPageOf opts) (site (i + j) (f_url g)) = Some r"
    by (auto simp: settle_def)
  ultimately show ?thesis by blast
qed

lemma visitChunks_inv:
  assumes "I acc"
    and "\<And>acc f r. I acc \<Longrightarrow> f \<in> set toVisit \<Longrightarrow>
           (\<exists>oc. visit P (discoverTransitionsOf opts) (transitionsPerPageOf opts) oc = Some r) \<Longrightarrow>
           I (mergeResult P (sameOriginOf opts) (maxDepthOf opts) acc (f, r))"
  shows "I (visitChunks P opts site toVisit i acc)"
  using assms
proof (induction P opts site toVisit i acc rule: visitChunks.induct)
  case (1 P opts site toVisit i acc)
  show ?case
  proof (cases "i < length toVisit")
    case False
    then show ?thesis using "1.prems"(1) by (subst visitChunks.simps) simp
  next
    case True
    let ?chunk = "take (concurrencyOf opts) (drop i toVisit)"
    let ?results = "map (settle P opts site i) (enumerate 0 ?chunk)"
    let ?acc = "foldl (mergeSettled P (sameOriginOf opts) (maxDepthOf opts)) acc ?results"
    have "I ?acc"
    proof (rule foldl_mergeSettled_inv [where I = I])
      show "I acc" by (rule "1.prems"(1))
    next
      fix a f r
      assume a: "I a" and m: "Some (f, r) \<in> set ?results"
      from settle_Some [OF m] have "f \<in> set ?chunk"
        and v: "\<exists>oc. visit P (discoverTransitionsOf opts) (transitionsPerPageOf opts) oc = Some r"
        by blast+
      then have "f \<in> set toVisit" by (meson in_set_dropD in_set_takeD)
      then show "I (mergeResult P (sameOriginOf opts) (maxDepthOf opts) a (f, r))"
        using "1.prems"(2) a v by blast
    qed
    then have "I (visitChunks P opts site toVisit (i + concurrencyOf opts) ?acc)"
      using "1.IH" [OF True refl refl] "1.prems"(2) by blast
    then show ?thesis using True by (subst visitChunks.simps) (simp add: Let_def)
  qed
qed

lemma crawlLoop_inv:
  assumes "I st"
    and "\<And>st cands f r. I st \<Longrightarrow> f_depth f \<le> maxDepthOf opts \<Longrightarrow>
           (\<exists>oc. visit P (discoverTransitionsOf opts) (transitionsPerPageOf opts) oc = Some r) \<Longrightarrow>
           I (fst (mergeResult P (sameOriginOf opts) (maxDepthOf opts) (st, cands) (f, r)))"
  shows "I (crawlLoop P opts site depth frontier st)"
  using assms
proof (induction P opts site depth frontier st rule: crawlLoop.induct)
  case (1 P opts site depth frontier st)
  let ?go = "depth \<le> maxDepthOf opts \<and> frontier \<noteq> [] \<and> length (pages st) < maxPagesOf opts"
  let ?layer = "filter (\<lambda>f. f_depth f = depth) frontier"
  show ?case
  proof (cases ?go)
    case False
    then show ?thesis using "1.prems"(1) by (subst crawlLoop.simps) auto
  next
    case go: True
    show ?thesis
    proof (cases "?layer = []")
      case True
      have "I (crawlLoop P opts site (depth + 1) frontier st)"
        using "1.IH"(1) [OF go refl True] "1.prems" by blast
      then show ?thesis using go True by (subst crawlLoop.simps) (simp add: Let_def)
    next
      case False
      let ?toVisit = "take (maxPagesOf opts - length (pages st))
                        (filter (\<lambda>f. f_url f \<notin> visited st) ?layer)"
      let ?merged = "visitChunks P opts (site depth) ?toVisit 0 (st, [])"
      have "I (fst ?merged)"
      proof (rule visitChunks_inv [where I = "\<lambda>acc. I (fst acc)"])
        show "I (fst (st, []))" using "1.prems"(1) by simp
      next
        fix acc :: "crawlState \<times> frontierEntry list" and f r
        assume a: "I (fst acc)" and f: "f \<in> set ?toVisit"
          and v: "\<exists>oc. visit P (discoverTransitionsOf opts) (transitionsPerPageOf opts) oc = Some r"
        from f have "f \<in> set ?layer" by (meson in_set_takeD filter_is_subset subsetD)
        then have "f_depth f \<le> maxDepthOf opts" using go by simp
        then show "I (fst (mergeResult P (sameOriginOf opts) (maxDepthOf opts) acc (f, r)))"
          using "1.prems"(2) [of "fst acc" f r "snd acc"] a v by simp
      qed
      then have "I (crawlLoop P opts site (depth + 1)
                     (nextFrontierOf (visited (fst ?merged)) {} (snd ?merged)) (fst ?merged))"
        using "1.IH"(2) [OF go refl False refl refl] "1.prems"(2) by blast
      then show ?thesis using go False by (subst crawlLoop.simps) (simp add: Let_def)
    qed
  qed
qed

lemma crawlFinal_inv:
  assumes "I emptyState"
    and "\<And>st cands f r. I st \<Longrightarrow> f_depth f \<le> maxDepthOf opts \<Longrightarrow>
           (\<exists>oc. visit P (discoverTransitionsOf opts) (transitionsPerPageOf opts) oc = Some r) \<Longrightarrow>
           I (fst (mergeResult P (sameOriginOf opts) (maxDepthOf opts) (st, cands) (f, r)))"
  shows "I (crawlFinal P opts site)"
  unfolding crawlFinal_def by (rule crawlLoop_inv [OF assms])

text \<open>The crawl of the example site, evaluated.\<close>

lemma demo_final: "crawlFinal toy_platform demo_opts demo_site = demo_state"
  by code_simp

lemma demo_visitA:
  "visit toy_platform True 12 (Loaded demo_pageA) = Some demo_resA"
  by code_simp

lemma demo_visitDocs:
  "visit toy_platform True 12 (Loaded demo_pageDocs) = Some demo_resDocs"
  by code_simp

lemma demo_mergeA:
  "mergeResult toy_platform True 1 (emptyState, []) (demo_seedEntry, demo_resA)
     = (demo_stateA, [demo_docsEntry, demo_profileEntry])"
  by code_simp

lemma demo_mergeDocs:
  "mergeResult toy_platform True 1 (demo_stateA, []) (demo_docsEntry, demo_resDocs)
     = (demo_state, [])"
  by code_simp

lemma demo_crawl:
  "crawl toy_platform demo_opts demo_site =
     \<lparr> r_pages = pages demo_state, r_graph = graph demo_state,
       r_actionGraph = actionGraph demo_state \<rparr>"
  by (simp add: crawl_def demo_final)

section \<open>Budgets\<close>








section \<open>One page per canonical URL\<close>

lemma crawlFinal_claims:
  "distinct (map p_url (pages (crawlFinal P opts site))) \<and>
   set (map p_url (pages (crawlFinal P opts site))) = visited (crawlFinal P opts site)"
proof (rule crawlFinal_inv
    [where I = "\<lambda>st. distinct (map p_url (pages st)) \<and> set (map p_url (pages st)) = visited st"])
  show "distinct (map p_url (pages emptyState)) \<and>
        set (map p_url (pages emptyState)) = visited emptyState"
    by (simp add: emptyState_def)
next
  fix st :: crawlState and cands :: "frontierEntry list" and f :: frontierEntry
    and r :: visitResult
  assume i: "distinct (map p_url (pages st)) \<and> set (map p_url (pages st)) = visited st"
  let ?st = "fst (mergeResult P (sameOriginOf opts) (maxDepthOf opts) (st, cands) (f, r))"
  show "distinct (map p_url (pages ?st)) \<and> set (map p_url (pages ?st)) = visited ?st"
  proof (cases "normalized r \<in> visited st")
    case True
    then show ?thesis using i by (simp add: mergeResult_claimed)
  next
    case False
    then show ?thesis using i by (auto simp: mergeResult_fresh Let_def)
  qed
qed



section \<open>Failed visits\<close>







section \<open>The edges of a page\<close>

lemma edgesAt_update:
  "edgesAt (AList.update k v ag) k' = (if k' = k then v else edgesAt ag k')"
  by (simp add: edgesAt_def update_conv')

lemma edgesAt_ensureKey: "edgesAt (ensureKey ag k) k' = edgesAt ag k'"
  by (auto simp: edgesAt_def ensureKey_def update_conv')

lemma edgesAt_pushEdge:
  "edgesAt (pushEdge ag k e) k' = (if k' = k then edgesAt ag k @ [e] else edgesAt ag k')"
  by (simp add: pushEdge_def edgesAt_update)

lemma actionStep_acc:
  "actionStep P so bo vis n (nu, ae) a =
     (nu @ fst (actionStep P so bo vis n ([], []) a),
      ae @ snd (actionStep P so bo vis n ([], []) a))"
  by (simp add: actionStep_def Let_def split: option.splits)

lemma foldl_actionStep:
  "foldl (actionStep P so bo vis n) (nu, ae) acts =
     (nu @ concat (map (\<lambda>a. fst (actionStep P so bo vis n ([], []) a)) acts),
      ae @ concat (map (\<lambda>a. snd (actionStep P so bo vis n ([], []) a)) acts))"
proof (induction acts arbitrary: nu ae)
  case Nil
  then show ?case by simp
next
  case (Cons a acts)
  show ?case
    by (simp add: actionStep_acc [of P so bo vis n nu ae a] Cons.IH)
qed

lemma pageEdges_concat:
  "pageEdges P so bo vis n acts =
     (concat (map (\<lambda>a. fst (actionStep P so bo vis n ([], []) a)) acts),
      concat (map (\<lambda>a. snd (actionStep P so bo vis n ([], []) a)) acts))"
  by (simp add: pageEdges_def foldl_actionStep)

lemma actionStep_next:
  "fst (actionStep P so bo vis n ([], []) a) =
     filter (\<lambda>u. u \<notin> vis)
       (map e_to (filter (\<lambda>e. e_type e = Act Navigate) (snd (actionStep P so bo vis n ([], []) a))))"
  by (simp add: actionStep_def Let_def split: option.splits)

lemma pageEdges_next:
  "fst (pageEdges P so bo vis n acts) =
     filter (\<lambda>u. u \<notin> vis)
       (map e_to (filter (\<lambda>e. e_type e = Act Navigate) (snd (pageEdges P so bo vis n acts))))"
  by (induction acts) (simp_all add: pageEdges_concat actionStep_next [symmetric])

lemma actionStep_nav_iff:
  "e \<in> set (snd (actionStep P so bo vis n ([], []) a)) \<and> e_type e = Act Navigate \<longleftrightarrow>
   (\<exists>au. a_type a = Navigate \<and> resolveHref P n (a_href a) = Some au \<and> au \<noteq> [] \<and>
      \<not> crossOrigin P so bo (normalizeUrl P au) \<and>
      e = \<lparr> e_to = normalizeUrl P au, e_label = a_label a, e_type = Act Navigate,
            e_options = None \<rparr>)"
proof (cases "a_type a = Navigate")
  case False
  then show ?thesis by (auto simp: actionStep_def)
next
  case True
  show ?thesis
  proof (cases "resolveHref P n (a_href a)")
    case None
    then show ?thesis using True by (simp add: actionStep_def)
  next
    case (Some au)
    then show ?thesis using True by (auto simp: actionStep_def Let_def)
  qed
qed

lemma pageEdges_nav_iff:
  "e \<in> set (snd (pageEdges P so bo vis n acts)) \<and> e_type e = Act Navigate \<longleftrightarrow>
   (\<exists>a \<in> set acts. \<exists>au. a_type a = Navigate \<and> resolveHref P n (a_href a) = Some au \<and> au \<noteq> [] \<and>
      \<not> crossOrigin P so bo (normalizeUrl P au) \<and>
      e = \<lparr> e_to = normalizeUrl P au, e_label = a_label a, e_type = Act Navigate,
            e_options = None \<rparr>)"
proof -
  have "e \<in> set (snd (pageEdges P so bo vis n acts)) \<and> e_type e = Act Navigate \<longleftrightarrow>
        (\<exists>a \<in> set acts. e \<in> set (snd (actionStep P so bo vis n ([], []) a)) \<and>
                           e_type e = Act Navigate)"
    by (auto simp: pageEdges_concat)
  then show ?thesis by (simp only: actionStep_nav_iff)
qed

lemma transitionStep_edges:
  "fst (transitionStep P n (ae, ag) tr) =
     ae @ (if triggerLabel tr = [] then [] else [transitionEdge n (triggerLabel tr)])"
  by (simp add: transitionStep_def Let_def)

lemma foldl_transitionStep_edges:
  "fst (foldl (transitionStep P n) (ae, ag) trs) =
     ae @ map (\<lambda>tr. transitionEdge n (triggerLabel tr))
            (filter (\<lambda>tr. triggerLabel tr \<noteq> []) trs)"
proof (induction trs arbitrary: ae ag)
  case Nil
  then show ?case by simp
next
  case (Cons tr trs)
  obtain ae1 ag1 where s: "transitionStep P n (ae, ag) tr = (ae1, ag1)"
    by (cases "transitionStep P n (ae, ag) tr")
  have e1: "ae1 = ae @ (if triggerLabel tr = [] then [] else [transitionEdge n (triggerLabel tr)])"
    using transitionStep_edges [of P n ae ag tr] s by simp
  show ?case using Cons.IH [of ae1 ag1] s e1 by simp
qed

lemma filterEdges_keeps:
  "e \<in> set es \<Longrightarrow> e_type e = Act Navigate \<or> e_type e = Transition \<Longrightarrow> e \<in> set (filterEdges es)"
  by (auto simp: filterEdges_def Let_def)

section \<open>Navigate edges and the same-origin filter\<close>

lemma merged_fresh:
  assumes "normalized res \<notin> visited st"
  shows "visited (fst (mergeResult P so md (st, cands) (input, res)))
           = insert (normalized res) (visited st)"
    and "map_of (graph (fst (mergeResult P so md (st, cands) (input, res)))) (normalized res)
           = Some (fst (pageEdges P so (f_origin input) (insert (normalized res) (visited st))
                          (normalized res) (v_actions res)))"
    and "edgesAt (actionGraph (fst (mergeResult P so md (st, cands) (input, res)))) (normalized res)
           = edgesAt (snd (foldl (transitionStep P (normalized res))
                 (snd (pageEdges P so (f_origin input) (insert (normalized res) (visited st))
                         (normalized res) (v_actions res)), actionGraph st)
                 (v_transitions res))) (normalized res) @
             filterEdges (fst (foldl (transitionStep P (normalized res))
                 (snd (pageEdges P so (f_origin input) (insert (normalized res) (visited st))
                         (normalized res) (v_actions res)), actionGraph st)
                 (v_transitions res)))"
    and "snd (mergeResult P so md (st, cands) (input, res))
           = cands @ (if f_depth input + 1 \<le> md
                      then map (\<lambda>nurl. \<lparr> f_url = nurl, f_depth = f_depth input + 1,
                                           f_origin = f_origin input \<rparr>)
                             (fst (pageEdges P so (f_origin input)
                                     (insert (normalized res) (visited st))
                                     (normalized res) (v_actions res)))
                      else [])"
  using assms
  by (simp_all add: mergeResult_fresh Let_def update_conv' edgesAt_update)

lemma merged_nav_edge:
  assumes fresh: "normalized res \<notin> visited st"
    and e: "e \<in> set (snd (pageEdges P so (f_origin input) (insert (normalized res) (visited st))
                           (normalized res) (v_actions res)))"
    and n: "e_type e = Act Navigate"
  shows "e \<in> set (edgesAt (actionGraph (fst (mergeResult P so md (st, cands) (input, res))))
                  (normalized res))"
proof -
  let ?pe = "pageEdges P so (f_origin input) (insert (normalized res) (visited st))
               (normalized res) (v_actions res)"
  let ?tl = "foldl (transitionStep P (normalized res)) (snd ?pe, actionGraph st) (v_transitions res)"
  have "e \<in> set (fst ?tl)" using e by (simp add: foldl_transitionStep_edges)
  then have "e \<in> set (filterEdges (fst ?tl))" using n by (simp add: filterEdges_keeps)
  then show ?thesis by (simp add: merged_fresh(3) [OF fresh])
qed

lemma crossOrigin_skips:
  assumes "a_type a = Navigate" "resolveHref P n (a_href a) = Some au"
    and "crossOrigin P so bo (normalizeUrl P au)"
  shows "actionStep P so bo vis n acc a = acc"
  using assms by (simp add: actionStep_def Let_def split: prod.splits)

text \<open>
  C1, as the source has it.  When a fulfilled visit of a page not yet claimed is merged,
  every navigate action whose href resolves to an http(s) URL is treated by the origin of
  its canonical target.  A target that passes the same-origin test (always, when
  \<open>sameOrigin\<close> is off or the seed's origin is unknown) gets a navigate edge in the page's
  \<open>actionGraph\<close> entry, and is enqueued when it is unvisited and the child depth is within
  \<open>maxDepth\<close>.  A target of another origin is skipped: the action adds no edge and no
  candidate.  Every new candidate is an unvisited, in-depth target that passes the test.
\<close>

theorem navigate_edges_same_origin:
  assumes "normalized res \<notin> visited st"
  shows "(\<forall>a \<in> set (v_actions res). \<forall>au.
            a_type a = Navigate \<and> resolveHref P (normalized res) (a_href a) = Some au \<and> au \<noteq> [] \<longrightarrow>
            (if crossOrigin P so (f_origin input) (normalizeUrl P au)
             then \<forall>vis acc. actionStep P so (f_origin input) vis (normalized res) acc a = acc
             else \<lparr> e_to = normalizeUrl P au, e_label = a_label a, e_type = Act Navigate,
                    e_options = None \<rparr>
                    \<in> set (edgesAt (actionGraph (fst (mergeResult P so md (st, cands) (input, res))))
                             (normalized res)) \<and>
                  (normalizeUrl P au \<notin> insert (normalized res) (visited st) \<and>
                   f_depth input + 1 \<le> md \<longrightarrow>
                   \<lparr> f_url = normalizeUrl P au, f_depth = f_depth input + 1,
                     f_origin = f_origin input \<rparr>
                     \<in> set (snd (mergeResult P so md (st, cands) (input, res)))))) \<and>
         (\<forall>c \<in> set (snd (mergeResult P so md (st, cands) (input, res))).
            c \<in> set cands \<or>
            (f_url c \<notin> insert (normalized res) (visited st) \<and> f_depth c \<le> md \<and>
             \<not> crossOrigin P so (f_origin input) (f_url c)))"
proof -
  let ?n = "normalized res"
  let ?bo = "f_origin input"
  let ?vis = "insert ?n (visited st)"
  let ?pe = "pageEdges P so ?bo ?vis ?n (v_actions res)"
  let ?m = "mergeResult P so md (st, cands) (input, res)"
  have part1: "(if crossOrigin P so ?bo (normalizeUrl P au)
             then \<forall>vis acc. actionStep P so ?bo vis ?n acc a = acc
             else \<lparr> e_to = normalizeUrl P au, e_label = a_label a, e_type = Act Navigate,
                    e_options = None \<rparr> \<in> set (edgesAt (actionGraph (fst ?m)) ?n) \<and>
                  (normalizeUrl P au \<notin> ?vis \<and> f_depth input + 1 \<le> md \<longrightarrow>
                   \<lparr> f_url = normalizeUrl P au, f_depth = f_depth input + 1, f_origin = ?bo \<rparr>
                     \<in> set (snd ?m)))"
    if a: "a \<in> set (v_actions res)" and t: "a_type a = Navigate"
      and r: "resolveHref P ?n (a_href a) = Some au" and ne: "au \<noteq> []" for a au
  proof (cases "crossOrigin P so ?bo (normalizeUrl P au)")
    case True
    then show ?thesis using crossOrigin_skips [OF t r] by simp
  next
    case False
    let ?e = "\<lparr> e_to = normalizeUrl P au, e_label = a_label a, e_type = Act Navigate,
                 e_options = None \<rparr>"
    have in_pe: "?e \<in> set (snd ?pe) \<and> e_type ?e = Act Navigate"
      unfolding pageEdges_nav_iff using a t r ne False by blast
    then have edge: "?e \<in> set (edgesAt (actionGraph (fst ?m)) ?n)"
      using merged_nav_edge [OF assms, of ?e P so input md cands] by simp
    have "normalizeUrl P au \<in> set (fst ?pe)" if "normalizeUrl P au \<notin> ?vis"
    proof -
      have "normalizeUrl P au \<in> set (map e_to (filter (\<lambda>e. e_type e = Act Navigate) (snd ?pe)))"
        using in_pe by force
      then show ?thesis using that by (subst pageEdges_next) simp
    qed
    then have cand: "normalizeUrl P au \<notin> ?vis \<and> f_depth input + 1 \<le> md \<longrightarrow>
                   \<lparr> f_url = normalizeUrl P au, f_depth = f_depth input + 1, f_origin = ?bo \<rparr>
                     \<in> set (snd ?m)"
      by (auto simp: merged_fresh(4) [OF assms])
    show ?thesis using False edge cand by simp
  qed
  have part2: "c \<in> set cands \<or>
            (f_url c \<notin> ?vis \<and> f_depth c \<le> md \<and> \<not> crossOrigin P so ?bo (f_url c))"
    if c: "c \<in> set (snd ?m)" for c
  proof (cases "c \<in> set cands")
    case True
    then show ?thesis by simp
  next
    case False
    with c have d: "f_depth input + 1 \<le> md" and u: "f_url c \<in> set (fst ?pe)"
      and dc: "f_depth c = f_depth input + 1"
      by (auto simp: merged_fresh(4) [OF assms] split: if_splits)
    from u have "f_url c \<notin> ?vis" and
      "f_url c \<in> e_to ` {e \<in> set (snd ?pe). e_type e = Act Navigate}"
      by (subst (asm) pageEdges_next, simp)+
    then obtain e where e: "e \<in> set (snd ?pe) \<and> e_type e = Act Navigate" and t: "f_url c = e_to e"
      by auto
    from e [unfolded pageEdges_nav_iff] t have "\<not> crossOrigin P so ?bo (f_url c)" by auto
    then show ?thesis using \<open>f_url c \<notin> ?vis\<close> d dc by simp
  qed
  show ?thesis using part1 part2 by blast
qed

lemma demo_urls:
  "resolveHref toy_platform ''https://example.com/a'' (Some ''/docs/'')
     = Some ''https://example.com/docs/''"
  "normalizeUrl toy_platform ''https://example.com/docs/'' = ''https://example.com/docs''"
  "\<not> crossOrigin toy_platform True (Some ''https://example.com'') ''https://example.com/docs''"
  "resolveHref toy_platform ''https://example.com/a'' (Some ''https://other.org/x'')
     = Some ''https://other.org/x''"
  "normalizeUrl toy_platform ''https://other.org/x'' = ''https://other.org/x''"
  "crossOrigin toy_platform True (Some ''https://example.com'') ''https://other.org/x''"
  "resolveHref toy_platform ''https://example.com/docs'' (Some ''/a'')
     = Some ''https://example.com/a''"
  "normalizeUrl toy_platform ''https://example.com/a'' = ''https://example.com/a''"
  "\<not> crossOrigin toy_platform True (Some ''https://example.com'') ''https://example.com/a''"
  by (simp_all add: resolveHref_def normalizeUrl_def stripPath_def crossOrigin_def truthy_def
        toy_platform_def toy_new_base_def toy_new_def endsWith_def stripTrailingSlashes_def)

theorem navigate_edges_same_origin_witness:
  "normalized demo_resA \<notin> visited emptyState \<and>
   nav ''Docs'' ''/docs/'' \<in> set (v_actions demo_resA) \<and>
   resolveHref toy_platform (normalized demo_resA) (a_href (nav ''Docs'' ''/docs/''))
     = Some ''https://example.com/docs/'' \<and>
   \<not> crossOrigin toy_platform True (f_origin demo_seedEntry)
       (normalizeUrl toy_platform ''https://example.com/docs/'') \<and>
   \<lparr> e_to = ''https://example.com/docs'', e_label = ''Docs'', e_type = Act Navigate,
     e_options = None \<rparr>
     \<in> set (edgesAt (actionGraph (fst (mergeResult toy_platform True 1 (emptyState, [])
                                       (demo_seedEntry, demo_resA))))
              ''https://example.com/a'') \<and>
   demo_docsEntry \<in> set (snd (mergeResult toy_platform True 1 (emptyState, [])
                              (demo_seedEntry, demo_resA))) \<and>
   nav ''Partner'' ''https://other.org/x'' \<in> set (v_actions demo_resA) \<and>
   crossOrigin toy_platform True (f_origin demo_seedEntry)
     (normalizeUrl toy_platform ''https://other.org/x'') \<and>
   actionStep toy_platform True (f_origin demo_seedEntry) {} (normalized demo_resA) ([], [])
     (nav ''Partner'' ''https://other.org/x'') = ([], [])"
proof -
  have h: "normalized demo_resA \<notin> visited emptyState"
    by (simp add: emptyState_def)
  have n: "normalized demo_resA = ''https://example.com/a''"
    "f_origin demo_seedEntry = Some ''https://example.com''" "f_depth demo_seedEntry = 0"
    "v_actions demo_resA = [nav ''Docs'' ''/docs/'', nav ''Partner'' ''https://other.org/x'',
                    btn ''Menu'', nav ''Profile'' ''/profile'', btn ''Help'']"
    "visited emptyState = {}"
    by (simp_all add: demo_resA_def demo_seedEntry_def demo_pageA_def emptyState_def)
  have a: "a_type (nav l x) = Navigate" "a_href (nav l x) = Some x" "a_label (nav l x) = l" for l x
    by (simp_all add: nav_def)
  note T = navigate_edges_same_origin [OF h, of toy_platform True demo_seedEntry 1 "[]"]
  from T have docs:
    "\<lparr> e_to = ''https://example.com/docs'', e_label = ''Docs'', e_type = Act Navigate,
       e_options = None \<rparr>
     \<in> set (edgesAt (actionGraph (fst (mergeResult toy_platform True 1 (emptyState, [])
                                       (demo_seedEntry, demo_resA))))
              ''https://example.com/a'') \<and>
     demo_docsEntry \<in> set (snd (mergeResult toy_platform True 1 (emptyState, [])
                              (demo_seedEntry, demo_resA)))"
    by (simp add: n a demo_urls demo_docsEntry_def)
  from T have partner:
    "actionStep toy_platform True (f_origin demo_seedEntry) {} (normalized demo_resA) ([], [])
       (nav ''Partner'' ''https://other.org/x'') = ([], [])"
    by (simp add: n a demo_urls)
  show ?thesis using docs partner by (simp add: n a demo_urls)
qed

text \<open>
  The claim as the specification states it fails on the example site: the link
  \<open>Partner\<close> of page \<open>/a\<close> resolves to the valid URL \<open>https://other.org/x\<close> of another
  origin, and the crawl with \<open>sameOrigin\<close> set records no edge to it.
\<close>

theorem cross_origin_edge_counterexample:
  "sameOriginOf demo_opts \<and>
   p_url (hd (r_pages (crawl toy_platform demo_opts demo_site))) = ''https://example.com/a'' \<and>
   nav ''Partner'' ''https://other.org/x''
     \<in> set (p_actions (hd (r_pages (crawl toy_platform demo_opts demo_site)))) \<and>
   a_type (nav ''Partner'' ''https://other.org/x'') = Navigate \<and>
   resolveHref toy_platform ''https://example.com/a''
     (a_href (nav ''Partner'' ''https://other.org/x'')) = Some ''https://other.org/x'' \<and>
   normalizeUrl toy_platform ''https://other.org/x'' = ''https://other.org/x'' \<and>
   ''https://other.org/x''
     \<notin> e_to ` set (edgesAt (r_actionGraph (crawl toy_platform demo_opts demo_site))
                      ''https://example.com/a'')"
proof -
  have o: "sameOriginOf demo_opts"
    by (simp add: sameOriginOf_def demo_opts_def)
  have p: "p_url (hd (r_pages (crawl toy_platform demo_opts demo_site))) = ''https://example.com/a''"
    "p_actions (hd (r_pages (crawl toy_platform demo_opts demo_site))) = extracted demo_pageA"
    by (simp_all add: demo_crawl demo_state_def)
  have e: "''https://other.org/x''
     \<notin> e_to ` set (edgesAt (r_actionGraph (crawl toy_platform demo_opts demo_site))
                      ''https://example.com/a'')"
    by (simp add: demo_crawl demo_state_def demo_graphA_def edgesAt_def)
  show ?thesis using o p e by (simp add: demo_pageA_def nav_def demo_urls)
qed

section \<open>The legacy graph\<close>

lemma pageEdges_next_iff:
  "u \<in> set (fst (pageEdges P so bo vis n acts)) \<longleftrightarrow>
   (\<exists>a \<in> set acts. \<exists>au. a_type a = Navigate \<and> resolveHref P n (a_href a) = Some au \<and> au \<noteq> [] \<and>
      u = normalizeUrl P au \<and> \<not> crossOrigin P so bo u \<and> u \<notin> vis)"
proof -
  have "u \<in> set (fst (pageEdges P so bo vis n acts)) \<longleftrightarrow>
        u \<notin> vis \<and> (\<exists>e. (e \<in> set (snd (pageEdges P so bo vis n acts)) \<and> e_type e = Act Navigate) \<and>
                   u = e_to e)"
    by (subst pageEdges_next) auto
  also have "\<dots> \<longleftrightarrow> (\<exists>a \<in> set acts. \<exists>au. a_type a = Navigate \<and>
      resolveHref P n (a_href a) = Some au \<and> au \<noteq> [] \<and>
      u = normalizeUrl P au \<and> \<not> crossOrigin P so bo u \<and> u \<notin> vis)"
    unfolding pageEdges_nav_iff by force
  finally show ?thesis .
qed

text \<open>
  C10.  When a fulfilled visit of a page not yet claimed is merged, \<open>graph[url]\<close> is set to
  the canonical targets of the page's navigate actions that resolve, pass the same-origin
  test and are not in the visited set, the page itself included.  A navigate action whose
  target passes the test but is already visited still gets its edge in the page's
  \<open>actionGraph\<close> entry, while its target is absent from \<open>graph[url]\<close>.
\<close>

theorem legacy_graph_unvisited_targets:
  assumes "normalized res \<notin> visited st"
  shows "\<exists>outs.
     map_of (graph (fst (mergeResult P so md (st, cands) (input, res)))) (normalized res)
       = Some outs \<and>
     (\<forall>u. u \<in> set outs \<longleftrightarrow>
        (\<exists>a \<in> set (v_actions res). \<exists>au.
           a_type a = Navigate \<and> resolveHref P (normalized res) (a_href a) = Some au \<and> au \<noteq> [] \<and>
           u = normalizeUrl P au \<and> \<not> crossOrigin P so (f_origin input) u \<and>
           u \<notin> insert (normalized res) (visited st))) \<and>
     (\<forall>a \<in> set (v_actions res). \<forall>au.
        a_type a = Navigate \<and> resolveHref P (normalized res) (a_href a) = Some au \<and> au \<noteq> [] \<and>
        \<not> crossOrigin P so (f_origin input) (normalizeUrl P au) \<and>
        normalizeUrl P au \<in> insert (normalized res) (visited st) \<longrightarrow>
        \<lparr> e_to = normalizeUrl P au, e_label = a_label a, e_type = Act Navigate,
          e_options = None \<rparr>
          \<in> set (edgesAt (actionGraph (fst (mergeResult P so md (st, cands) (input, res))))
                   (normalized res)) \<and>
        normalizeUrl P au \<notin> set outs)"
proof -
  let ?n = "normalized res"
  let ?vis = "insert ?n (visited st)"
  let ?pe = "pageEdges P so (f_origin input) ?vis ?n (v_actions res)"
  let ?m = "mergeResult P so md (st, cands) (input, res)"
  have g: "map_of (graph (fst ?m)) ?n = Some (fst ?pe)"
    by (rule merged_fresh(2) [OF assms])
  have edge: "\<lparr> e_to = normalizeUrl P au, e_label = a_label a, e_type = Act Navigate,
                e_options = None \<rparr> \<in> set (edgesAt (actionGraph (fst ?m)) ?n) \<and>
              normalizeUrl P au \<notin> set (fst ?pe)"
    if "a \<in> set (v_actions res)" "a_type a = Navigate"
      "resolveHref P ?n (a_href a) = Some au" "au \<noteq> []"
      "\<not> crossOrigin P so (f_origin input) (normalizeUrl P au)"
      "normalizeUrl P au \<in> ?vis" for a au
  proof -
    let ?e = "\<lparr> e_to = normalizeUrl P au, e_label = a_label a, e_type = Act Navigate,
                 e_options = None \<rparr>"
    have "?e \<in> set (snd ?pe) \<and> e_type ?e = Act Navigate"
      unfolding pageEdges_nav_iff using that by blast
    then have "?e \<in> set (edgesAt (actionGraph (fst ?m)) ?n)"
      using merged_nav_edge [OF assms, of ?e P so input md cands] by simp
    moreover have "normalizeUrl P au \<notin> set (fst ?pe)"
      using that(6) by (simp add: pageEdges_next_iff)
    ultimately show ?thesis by simp
  qed
  show ?thesis
    using g edge by (intro exI [of _ "fst ?pe"]) (simp add: pageEdges_next_iff)
qed

theorem legacy_graph_unvisited_targets_witness:
  "normalized demo_resDocs \<notin> visited demo_stateA \<and>
   map_of (graph (fst (mergeResult toy_platform True 1 (demo_stateA, [])
                         (demo_docsEntry, demo_resDocs)))) ''https://example.com/docs''
     = Some [''https://example.com/broken''] \<and>
   nav ''Back'' ''/a'' \<in> set (v_actions demo_resDocs) \<and>
   normalizeUrl toy_platform ''https://example.com/a'' \<in> visited demo_stateA \<and>
   \<lparr> e_to = ''https://example.com/a'', e_label = ''Back'', e_type = Act Navigate,
     e_options = None \<rparr>
     \<in> set (edgesAt (actionGraph (fst (mergeResult toy_platform True 1 (demo_stateA, [])
                                       (demo_docsEntry, demo_resDocs))))
              ''https://example.com/docs'') \<and>
   ''https://example.com/a'' \<notin> set [''https://example.com/broken'']"
proof -
  have h: "normalized demo_resDocs \<notin> visited demo_stateA"
    by (simp add: demo_resDocs_def demo_stateA_def)
  have n: "normalized demo_resDocs = ''https://example.com/docs''"
    "f_origin demo_docsEntry = Some ''https://example.com''"
    "v_actions demo_resDocs = [nav ''Back'' ''/a'', nav ''Gone'' ''/broken'']"
    "visited demo_stateA = {''https://example.com/a''}"
    by (simp_all add: demo_resDocs_def demo_docsEntry_def demo_pageDocs_def demo_stateA_def)
  have a: "a_type (nav l x) = Navigate" "a_href (nav l x) = Some x" "a_label (nav l x) = l" for l x
    by (simp_all add: nav_def)
  have g: "map_of (graph (fst (mergeResult toy_platform True 1 (demo_stateA, [])
                         (demo_docsEntry, demo_resDocs)))) ''https://example.com/docs''
     = Some [''https://example.com/broken'']"
    by (simp only: demo_mergeDocs fst_conv) (simp add: demo_state_def)
  from legacy_graph_unvisited_targets [OF h, of toy_platform True 1 "[]" demo_docsEntry]
  have "\<lparr> e_to = ''https://example.com/a'', e_label = ''Back'', e_type = Act Navigate,
     e_options = None \<rparr>
     \<in> set (edgesAt (actionGraph (fst (mergeResult toy_platform True 1 (demo_stateA, [])
                                       (demo_docsEntry, demo_resDocs))))
              ''https://example.com/docs'')"
    by (auto simp: n a demo_urls)
  then show ?thesis using g by (simp add: n demo_urls)
qed

section \<open>Transition and option nodes\<close>

lemma transitionNodeOf_neq: "transitionNodeOf n t \<noteq> n"
  by (simp add: transitionNodeOf_def)

lemma optNodeOf_neq: "optNodeOf tn opt \<noteq> tn"
  by (simp add: optNodeOf_def)

lemma optNodeOf_trans_neq: "optNodeOf (transitionNodeOf n t) opt \<noteq> n"
  by (simp add: optNodeOf_def transitionNodeOf_def)

lemma optionStep_edgesAt:
  "edgesAt (optionStep P n tn ae ag opt) k = edgesAt ag k @ optionEdgesAt P n tn ae k opt"
  by (simp add: optionStep_def optionEdgesAt_def Let_def edgesAt_pushEdge edgesAt_ensureKey)

lemma foldl_optionStep_edgesAt:
  "edgesAt (foldl (optionStep P n tn ae) ag opts) k =
     edgesAt ag k @ concat (map (optionEdgesAt P n tn ae k) opts)"
proof (induction opts arbitrary: ag)
  case Nil
  then show ?case by simp
next
  case (Cons opt opts)
  show ?case
    by (simp only: foldl_Cons Cons.IH optionStep_edgesAt list.map concat.simps append_assoc)
qed

lemma map_of_update_None: "map_of (AList.update k v ag) k' = None \<longleftrightarrow> k' \<noteq> k \<and> map_of ag k' = None"
  by (simp add: update_conv')

lemma keys_ensureKey: "fst ` set (ensureKey ag k) = insert k (fst ` set ag)"
proof (cases "map_of ag k")
  case None
  then show ?thesis by (simp add: ensureKey_def dom_update)
next
  case (Some v)
  then have "(k, v) \<in> set ag" by (rule map_of_SomeD)
  then have "k \<in> fst ` set ag" by force
  then show ?thesis using Some by (auto simp: ensureKey_def)
qed

lemma keys_pushEdge: "fst ` set (pushEdge ag k e) = insert k (fst ` set ag)"
  by (simp add: pushEdge_def dom_update)

lemma keys_optionStep:
  "fst ` set (optionStep P n tn ae ag opt) =
     fst ` set ag \<union> (if opt = [] then {} else {tn, optNodeOf tn opt})"
  by (auto simp: optionStep_def Let_def keys_pushEdge keys_ensureKey)

lemma keys_foldl_optionStep:
  "fst ` set (foldl (optionStep P n tn ae) ag opts) =
     fst ` set ag \<union> (if \<exists>opt \<in> set opts. opt \<noteq> [] then {tn} else {}) \<union>
     optNodeOf tn ` {opt \<in> set opts. opt \<noteq> []}"
proof (induction opts arbitrary: ag)
  case Nil
  then show ?case by simp
next
  case (Cons opt opts)
  show ?case
    by (simp only: foldl_Cons Cons.IH keys_optionStep) auto
qed

lemma set_uniqFrom: "set (uniqFrom seen xs) = set xs - set seen"
  by (induction seen xs rule: uniqFrom.induct) auto

lemma set_uniq: "set (uniq xs) = set xs"
  by (simp add: uniq_def set_uniqFrom)

lemma set_combinedOf:
  "set (combinedOf tr) = (if added tr \<noteq> [] then set (added tr) else set (removed tr))"
  by (simp add: combinedOf_def set_uniq)

lemma find_append_cases:
  "find Q (xs @ ys) = (case find Q xs of None \<Rightarrow> find Q ys | Some x \<Rightarrow> Some x)"
  by (induction xs) simp_all

lemma navMatchOf_append:
  assumes "\<forall>e \<in> set ts. e_type e = Transition"
  shows "navMatchOf P (ae @ ts) opt = navMatchOf P ae opt"
proof -
  have "find (\<lambda>e. e_type e = Act Navigate \<and> e_label e \<noteq> [] \<and>
               toLowerCase P (e_label e) = toLowerCase P opt) ts = None"
    using assms by (auto simp: find_None_iff)
  then show ?thesis
    by (simp add: navMatchOf_def find_append_cases split: option.splits)
qed

lemma optionEdge_append:
  assumes "\<forall>e \<in> set ts. e_type e = Transition"
  shows "optionEdge P n (ae @ ts) opt = optionEdge P n ae opt"
  by (simp add: optionEdge_def navMatchOf_append [OF assms])

lemma optionEdgesAt_append:
  assumes "\<forall>e \<in> set ts. e_type e = Transition"
  shows "optionEdgesAt P n tn (ae @ ts) k = optionEdgesAt P n tn ae k"
  by (rule ext) (simp add: optionEdgesAt_def optionEdge_append [OF assms])

lemma transitionEdgesAt_append:
  assumes "\<forall>e \<in> set ts. e_type e = Transition"
  shows "transitionEdgesAt P n (ae @ ts) k tr = transitionEdgesAt P n ae k tr"
  by (simp add: transitionEdgesAt_def optionEdgesAt_append [OF assms])

lemma transitionEdge_type [simp]: "e_type (transitionEdge n t) = Transition"
  by (simp add: transitionEdge_def)

lemma transitionStep_edgesAt:
  assumes "\<forall>e \<in> set ts. e_type e = Transition"
  shows "edgesAt (snd (transitionStep P n (ae @ ts, ag) tr)) k =
           edgesAt ag k @ transitionEdgesAt P n ae k tr"
proof (cases "triggerLabel tr = []")
  case True
  then show ?thesis by (simp add: transitionStep_def transitionEdgesAt_def)
next
  case False
  have t: "\<forall>e \<in> set (ts @ [transitionEdge n (triggerLabel tr)]). e_type e = Transition"
    using assms by simp
  have "optionEdgesAt P n tn (ae @ ts @ [transitionEdge n (triggerLabel tr)]) k
          = optionEdgesAt P n tn ae k" for tn
    using optionEdgesAt_append [OF t, of P n tn ae k] by simp
  then show ?thesis using False
    by (simp add: transitionStep_def Let_def foldl_optionStep_edgesAt edgesAt_ensureKey
          transitionEdgesAt_def)
qed

lemma foldl_transitionStep_edgesAt:
  assumes "\<forall>e \<in> set ts. e_type e = Transition"
  shows "edgesAt (snd (foldl (transitionStep P n) (ae @ ts, ag) trs)) k =
           edgesAt ag k @ concat (map (transitionEdgesAt P n ae k) trs)"
  using assms
proof (induction trs arbitrary: ts ag)
  case Nil
  then show ?case by simp
next
  case (Cons tr trs)
  let ?ts = "ts @ (if triggerLabel tr = [] then [] else [transitionEdge n (triggerLabel tr)])"
  obtain ae1 ag1 where s: "transitionStep P n (ae @ ts, ag) tr = (ae1, ag1)"
    by (cases "transitionStep P n (ae @ ts, ag) tr")
  have e1: "ae1 = ae @ ?ts"
    using transitionStep_edges [of P n "ae @ ts" ag tr] s by simp
  have g1: "edgesAt ag1 k = edgesAt ag k @ transitionEdgesAt P n ae k tr"
    using transitionStep_edgesAt [OF Cons.prems, of P n ae ag tr k] s by simp
  have t: "\<forall>e \<in> set ?ts. e_type e = Transition" using Cons.prems by simp
  show ?case
    using Cons.IH [OF t, of ag1] s e1 g1 by simp
qed

lemma keys_transitionStep:
  "fst ` set (snd (transitionStep P n (ae, ag) tr)) =
     fst ` set ag \<union>
     (if triggerLabel tr = [] then {}
      else insert (transitionNodeOf n (triggerLabel tr))
             (optNodeOf (transitionNodeOf n (triggerLabel tr)) `
                {opt \<in> set (combinedOf tr). opt \<noteq> []}))"
proof (cases "triggerLabel tr = []")
  case True
  then show ?thesis by (simp add: transitionStep_def)
next
  case False
  show ?thesis
  proof (cases "\<exists>opt \<in> set (combinedOf tr). opt \<noteq> []")
    case True
    then show ?thesis using False
      by (simp add: transitionStep_def Let_def keys_foldl_optionStep keys_ensureKey)
  next
    case none: False
    then have "{opt \<in> set (combinedOf tr). opt \<noteq> []} = {}" by auto
    then show ?thesis using False none
      by (simp add: transitionStep_def Let_def keys_foldl_optionStep keys_ensureKey)
  qed
qed

lemma keys_foldl_transitionStep:
  "fst ` set (snd (foldl (transitionStep P n) (ae, ag) trs)) =
     fst ` set ag \<union>
     (\<Union>tr \<in> set trs.
        if triggerLabel tr = [] then {}
        else insert (transitionNodeOf n (triggerLabel tr))
               (optNodeOf (transitionNodeOf n (triggerLabel tr)) `
                  {opt \<in> set (combinedOf tr). opt \<noteq> []}))"
proof (induction trs arbitrary: ae ag)
  case Nil
  then show ?case by simp
next
  case (Cons tr trs)
  obtain ae1 ag1 where s: "transitionStep P n (ae, ag) tr = (ae1, ag1)"
    by (cases "transitionStep P n (ae, ag) tr")
  have k: "fst ` set ag1 = fst ` set ag \<union>
     (if triggerLabel tr = [] then {}
      else insert (transitionNodeOf n (triggerLabel tr))
             (optNodeOf (transitionNodeOf n (triggerLabel tr)) `
                {opt \<in> set (combinedOf tr). opt \<noteq> []}))"
    using keys_transitionStep [of P n ae ag tr] s by simp
  show ?case using Cons.IH [of ae1 ag1] s k by (simp add: Un_assoc)
qed

lemma actionStep_types:
  assumes "e \<in> set (snd (actionStep P so bo vis n ([], []) a))"
  shows "e_type e \<noteq> Transition \<and> (e_type e = Act Navigate \<or> e_to e = n)"
proof (cases "a_type a = Navigate")
  case False
  then show ?thesis using assms by (auto simp: actionStep_def)
next
  case True
  show ?thesis
  proof (cases "resolveHref P n (a_href a)")
    case None
    then show ?thesis using True assms by (simp add: actionStep_def)
  next
    case (Some au)
    then show ?thesis using True assms by (auto simp: actionStep_def Let_def split: if_splits)
  qed
qed

lemma pageEdges_types:
  assumes "e \<in> set (snd (pageEdges P so bo vis n acts))"
  shows "e_type e \<noteq> Transition \<and> (e_type e = Act Navigate \<or> e_to e = n)"
proof -
  from assms obtain a where "e \<in> set (snd (actionStep P so bo vis n ([], []) a))"
    by (auto simp: pageEdges_concat)
  then show ?thesis by (rule actionStep_types)
qed

section \<open>Transitions and their options in the graph\<close>

lemma merged_other:
  assumes "normalized res \<notin> visited st" and "k \<noteq> normalized res"
  shows "edgesAt (actionGraph (fst (mergeResult P so md (st, cands) (input, res)))) k
           = edgesAt (actionGraph st) k @
             concat (map (transitionEdgesAt P (normalized res)
                            (snd (pageEdges P so (f_origin input)
                                    (insert (normalized res) (visited st))
                                    (normalized res) (v_actions res))) k)
                       (v_transitions res))"
  using assms foldl_transitionStep_edgesAt [of "[]" P "normalized res"
      "snd (pageEdges P so (f_origin input) (insert (normalized res) (visited st))
              (normalized res) (v_actions res))" "actionGraph st" "v_transitions res" k]
  by (simp add: mergeResult_fresh Let_def edgesAt_update)

lemma merged_keys:
  assumes "normalized res \<notin> visited st"
  shows "fst ` set (actionGraph (fst (mergeResult P so md (st, cands) (input, res))))
           = insert (normalized res)
               (fst ` set (actionGraph st) \<union>
                (\<Union>tr \<in> set (v_transitions res).
                   if triggerLabel tr = [] then {}
                   else insert (transitionNodeOf (normalized res) (triggerLabel tr))
                          (optNodeOf (transitionNodeOf (normalized res) (triggerLabel tr)) `
                             {opt \<in> set (combinedOf tr). opt \<noteq> []})))"
  using assms
  by (simp add: mergeResult_fresh Let_def dom_update keys_foldl_transitionStep)

lemma merged_transition_edge:
  assumes fresh: "normalized res \<notin> visited st"
    and tr: "tr \<in> set (v_transitions res)" and trig: "triggerLabel tr \<noteq> []"
  shows "transitionEdge (normalized res) (triggerLabel tr)
           \<in> set (edgesAt (actionGraph (fst (mergeResult P so md (st, cands) (input, res))))
                    (normalized res))"
proof -
  let ?n = "normalized res"
  let ?pe = "pageEdges P so (f_origin input) (insert ?n (visited st)) ?n (v_actions res)"
  let ?tl = "foldl (transitionStep P ?n) (snd ?pe, actionGraph st) (v_transitions res)"
  have "transitionEdge ?n (triggerLabel tr) \<in> set (fst ?tl)"
    using tr trig by (simp add: foldl_transitionStep_edges)
  then have "transitionEdge ?n (triggerLabel tr) \<in> set (filterEdges (fst ?tl))"
    by (rule filterEdges_keeps) simp
  then show ?thesis by (simp add: merged_fresh(3) [OF fresh])
qed

lemma optionEdge_cases:
  "(\<exists>m \<in> set navs. e_type m = Act Navigate \<and> e_label m \<noteq> [] \<and>
        toLowerCase P (e_label m) = toLowerCase P l \<and>
        optionEdge P n navs l = \<lparr> e_to = e_to m, e_label = e_label m, e_type = Act Navigate,
                                   e_options = None \<rparr>) \<or>
   ((\<forall>m \<in> set navs. e_type m = Act Navigate \<and> e_label m \<noteq> [] \<longrightarrow>
        toLowerCase P (e_label m) \<noteq> toLowerCase P l) \<and>
    optionEdge P n navs l = \<lparr> e_to = n, e_label = l, e_type = Act Click, e_options = None \<rparr>)"
proof (cases "navMatchOf P navs l")
  case None
  then have "\<forall>m \<in> set navs. e_type m = Act Navigate \<and> e_label m \<noteq> [] \<longrightarrow>
        toLowerCase P (e_label m) \<noteq> toLowerCase P l"
    by (auto simp: navMatchOf_def find_None_iff)
  then show ?thesis using None by (simp add: optionEdge_def)
next
  case (Some m)
  then have "m \<in> set navs \<and> e_type m = Act Navigate \<and> e_label m \<noteq> [] \<and>
        toLowerCase P (e_label m) = toLowerCase P l"
    by (auto simp: navMatchOf_def find_Some_iff)
  then show ?thesis using Some by (auto simp: optionEdge_def)
qed

lemma collectLabels_nonempty: "[] \<notin> set (collectLabels found)"
proof
  assume "[] \<in> set (collectLabels found)"
  then have "[] \<in> set (take 40 (filter (\<lambda>l. l \<noteq> []) found))"
    by (simp add: collectLabels_def set_uniq)
  then have "[] \<in> set (filter (\<lambda>l. l \<noteq> []) found)" by (rule in_set_takeD)
  then show False by simp
qed

lemma visit_labels_nonempty:
  assumes "visit P disc tpp oc = Some res" and "tr \<in> set (v_transitions res)"
  shows "[] \<notin> set (added tr) \<and> [] \<notin> set (removed tr)"
proof -
  from assms obtain p where "tr = probeTransition p"
    by (auto simp: visit_def discoverTransitionsOn_def split: outcome.splits if_splits
          option.splits)
  then show ?thesis
    using collectLabels_nonempty by (auto simp: probeTransition_def Let_def)
qed

text \<open>
  C2.  When a fulfilled visit of a page \<open>a\<close> not yet claimed is merged, every transition of
  the visit with a non-empty trigger label has its transition node \<open>a::TRANS::trigger\<close> in
  \<open>actionGraph\<close> and a transition edge from \<open>a\<close> to it.  Every label of \<open>added\<close>, or of
  \<open>removed\<close> when \<open>added\<close> is empty, has its option node \<open>a::TRANS::trigger::OPT::label\<close>,
  an edge from the transition node to it, and an edge out of the option node: to the target
  of a navigate edge recorded for the page whose label equals the option label in lower
  case, when there is one, and otherwise back to \<open>a\<close>.
\<close>

theorem transition_nodes_and_options:
  fixes P :: "'u platform"
  defines "navsOf so input st res \<equiv>
             snd (pageEdges P so (f_origin input) (insert (normalized res) (visited st))
                    (normalized res) (v_actions res))"
  assumes vis: "visit P disc tpp oc = Some res"
    and fresh: "normalized res \<notin> visited st"
    and tr: "tr \<in> set (v_transitions res)" and trig: "triggerLabel tr \<noteq> []"
  shows "transitionNodeOf (normalized res) (triggerLabel tr)
           \<in> fst ` set (actionGraph (fst (mergeResult P so md (st, cands) (input, res)))) \<and>
         transitionEdge (normalized res) (triggerLabel tr)
           \<in> set (edgesAt (actionGraph (fst (mergeResult P so md (st, cands) (input, res))))
                    (normalized res)) \<and>
         (\<forall>l \<in> (if added tr \<noteq> [] then set (added tr) else set (removed tr)).
            optNodeOf (transitionNodeOf (normalized res) (triggerLabel tr)) l
              \<in> fst ` set (actionGraph (fst (mergeResult P so md (st, cands) (input, res)))) \<and>
            \<lparr> e_to = optNodeOf (transitionNodeOf (normalized res) (triggerLabel tr)) l,
              e_label = l, e_type = Act Click, e_options = None \<rparr>
              \<in> set (edgesAt (actionGraph (fst (mergeResult P so md (st, cands) (input, res))))
                       (transitionNodeOf (normalized res) (triggerLabel tr))) \<and>
            ((\<exists>m \<in> set (navsOf so input st res).
                 e_type m = Act Navigate \<and> toLowerCase P (e_label m) = toLowerCase P l \<and>
                 m \<in> set (edgesAt (actionGraph (fst (mergeResult P so md (st, cands) (input, res))))
                            (normalized res)) \<and>
                 \<lparr> e_to = e_to m, e_label = e_label m, e_type = Act Navigate, e_options = None \<rparr>
                   \<in> set (edgesAt (actionGraph (fst (mergeResult P so md (st, cands) (input, res))))
                            (optNodeOf (transitionNodeOf (normalized res) (triggerLabel tr)) l))) \<or>
             ((\<forall>m \<in> set (navsOf so input st res).
                 e_type m = Act Navigate \<and> e_label m \<noteq> [] \<longrightarrow>
                 toLowerCase P (e_label m) \<noteq> toLowerCase P l) \<and>
              \<lparr> e_to = normalized res, e_label = l, e_type = Act Click, e_options = None \<rparr>
                \<in> set (edgesAt (actionGraph (fst (mergeResult P so md (st, cands) (input, res))))
                         (optNodeOf (transitionNodeOf (normalized res) (triggerLabel tr)) l)))))"
proof -
  let ?a = "normalized res"
  let ?tn = "transitionNodeOf ?a (triggerLabel tr)"
  let ?navs = "navsOf so input st res"
  let ?ag = "actionGraph (fst (mergeResult P so md (st, cands) (input, res)))"
  have node: "?tn \<in> fst ` set ?ag"
    using tr trig by (simp add: merged_keys [OF fresh]) (rule disjI2, rule disjI2, force)
  have edge: "transitionEdge ?a (triggerLabel tr) \<in> set (edgesAt ?ag ?a)"
    by (rule merged_transition_edge [OF fresh tr trig])
  have opts: "optNodeOf ?tn l \<in> fst ` set ?ag \<and>
            \<lparr> e_to = optNodeOf ?tn l, e_label = l, e_type = Act Click, e_options = None \<rparr>
              \<in> set (edgesAt ?ag ?tn) \<and>
            ((\<exists>m \<in> set ?navs.
                 e_type m = Act Navigate \<and> toLowerCase P (e_label m) = toLowerCase P l \<and>
                 m \<in> set (edgesAt ?ag ?a) \<and>
                 \<lparr> e_to = e_to m, e_label = e_label m, e_type = Act Navigate, e_options = None \<rparr>
                   \<in> set (edgesAt ?ag (optNodeOf ?tn l))) \<or>
             ((\<forall>m \<in> set ?navs. e_type m = Act Navigate \<and> e_label m \<noteq> [] \<longrightarrow>
                 toLowerCase P (e_label m) \<noteq> toLowerCase P l) \<and>
              \<lparr> e_to = ?a, e_label = l, e_type = Act Click, e_options = None \<rparr>
                \<in> set (edgesAt ?ag (optNodeOf ?tn l))))"
    if l: "l \<in> (if added tr \<noteq> [] then set (added tr) else set (removed tr))" for l
  proof -
    from l have lc: "l \<in> set (combinedOf tr)" by (simp add: set_combinedOf)
    have ne: "l \<noteq> []"
      using visit_labels_nonempty [OF vis tr] l by (auto split: if_splits)
    have key: "optNodeOf ?tn l \<in> fst ` set ?ag"
      using tr trig lc ne
      by (simp add: merged_keys [OF fresh]) (rule disjI2, rule disjI2, force)
    have tn_ne: "?tn \<noteq> ?a" by (rule transitionNodeOf_neq)
    have on_ne: "optNodeOf ?tn l \<noteq> ?a" by (rule optNodeOf_trans_neq)
    have click: "\<lparr> e_to = optNodeOf ?tn l, e_label = l, e_type = Act Click, e_options = None \<rparr>
              \<in> set (transitionEdgesAt P ?a ?navs ?tn tr)"
      using trig lc ne by (auto simp: transitionEdgesAt_def optionEdgesAt_def)
    have c1: "\<lparr> e_to = optNodeOf ?tn l, e_label = l, e_type = Act Click, e_options = None \<rparr>
              \<in> set (edgesAt ?ag ?tn)"
      using click tr
      by (simp add: merged_other [OF fresh tn_ne] navsOf_def) blast
    have oe: "optionEdge P ?a ?navs l \<in> set (transitionEdgesAt P ?a ?navs (optNodeOf ?tn l) tr)"
      using trig lc ne by (auto simp: transitionEdgesAt_def optionEdgesAt_def)
    have c2: "optionEdge P ?a ?navs l \<in> set (edgesAt ?ag (optNodeOf ?tn l))"
      using oe tr
      by (simp add: merged_other [OF fresh on_ne] navsOf_def) blast
    have inpage: "m \<in> set (edgesAt ?ag ?a)" if "m \<in> set ?navs" "e_type m = Act Navigate" for m
      using merged_nav_edge [OF fresh, of m P so input md cands] that by (simp add: navsOf_def)
    from optionEdge_cases [of ?navs P l ?a] c2 inpage
    have "(\<exists>m \<in> set ?navs.
                 e_type m = Act Navigate \<and> toLowerCase P (e_label m) = toLowerCase P l \<and>
                 m \<in> set (edgesAt ?ag ?a) \<and>
                 \<lparr> e_to = e_to m, e_label = e_label m, e_type = Act Navigate, e_options = None \<rparr>
                   \<in> set (edgesAt ?ag (optNodeOf ?tn l))) \<or>
             ((\<forall>m \<in> set ?navs. e_type m = Act Navigate \<and> e_label m \<noteq> [] \<longrightarrow>
                 toLowerCase P (e_label m) \<noteq> toLowerCase P l) \<and>
              \<lparr> e_to = ?a, e_label = l, e_type = Act Click, e_options = None \<rparr>
                \<in> set (edgesAt ?ag (optNodeOf ?tn l)))"
      by metis
    then show ?thesis using key c1 by blast
  qed
  show ?thesis using node edge opts by blast
qed


theorem transition_nodes_and_options_witness:
  "visit toy_platform True 12 (Loaded demo_pageA) = Some demo_resA \<and>
   normalized demo_resA \<notin> visited emptyState \<and>
   demo_menu \<in> set (v_transitions demo_resA) \<and> triggerLabel demo_menu \<noteq> [] \<and>
   added demo_menu = [''Profile'', ''Logout''] \<and>
   ''https://example.com/a::TRANS::Menu''
     \<in> fst ` set (actionGraph (fst (mergeResult toy_platform True 1 (emptyState, [])
                                      (demo_seedEntry, demo_resA)))) \<and>
   \<lparr> e_to = ''https://example.com/a::TRANS::Menu'', e_label = ''Menu'', e_type = Transition,
     e_options = None \<rparr>
     \<in> set (edgesAt (actionGraph (fst (mergeResult toy_platform True 1 (emptyState, [])
                                       (demo_seedEntry, demo_resA))))
              ''https://example.com/a'') \<and>
   \<lparr> e_to = ''https://example.com/a::TRANS::Menu::OPT::Logout'', e_label = ''Logout'',
     e_type = Act Click, e_options = None \<rparr>
     \<in> set (edgesAt (actionGraph (fst (mergeResult toy_platform True 1 (emptyState, [])
                                       (demo_seedEntry, demo_resA))))
              ''https://example.com/a::TRANS::Menu'') \<and>
   edgesAt (actionGraph (fst (mergeResult toy_platform True 1 (emptyState, [])
                                (demo_seedEntry, demo_resA))))
     ''https://example.com/a::TRANS::Menu::OPT::Profile''
     = [\<lparr> e_to = ''https://example.com/profile'', e_label = ''Profile'',
          e_type = Act Navigate, e_options = None \<rparr>] \<and>
   edgesAt (actionGraph (fst (mergeResult toy_platform True 1 (emptyState, [])
                                (demo_seedEntry, demo_resA))))
     ''https://example.com/a::TRANS::Menu::OPT::Logout''
     = [\<lparr> e_to = ''https://example.com/a'', e_label = ''Logout'',
          e_type = Act Click, e_options = None \<rparr>]"
proof -
  have h: "normalized demo_resA \<notin> visited emptyState"
    by (simp add: emptyState_def)
  have t: "demo_menu \<in> set (v_transitions demo_resA)" "triggerLabel demo_menu \<noteq> []"
    "added demo_menu = [''Profile'', ''Logout'']" "triggerLabel demo_menu = ''Menu''"
    "normalized demo_resA = ''https://example.com/a''"
    by (simp_all add: demo_resA_def demo_menu_def)
  have ev: "edgesAt (actionGraph (fst (mergeResult toy_platform True 1 (emptyState, [])
                                (demo_seedEntry, demo_resA))))
     ''https://example.com/a::TRANS::Menu::OPT::Profile''
     = [\<lparr> e_to = ''https://example.com/profile'', e_label = ''Profile'',
          e_type = Act Navigate, e_options = None \<rparr>]"
    "edgesAt (actionGraph (fst (mergeResult toy_platform True 1 (emptyState, [])
                                (demo_seedEntry, demo_resA))))
     ''https://example.com/a::TRANS::Menu::OPT::Logout''
     = [\<lparr> e_to = ''https://example.com/a'', e_label = ''Logout'',
          e_type = Act Click, e_options = None \<rparr>]"
    by (simp_all only: demo_mergeA fst_conv)
       (simp_all add: demo_stateA_def demo_graphA_def edgesAt_def)
  from transition_nodes_and_options [OF demo_visitA h t(1) t(2), of True 1 "[]" demo_seedEntry]
  have "''https://example.com/a::TRANS::Menu''
     \<in> fst ` set (actionGraph (fst (mergeResult toy_platform True 1 (emptyState, [])
                                      (demo_seedEntry, demo_resA)))) \<and>
   \<lparr> e_to = ''https://example.com/a::TRANS::Menu'', e_label = ''Menu'', e_type = Transition,
     e_options = None \<rparr>
     \<in> set (edgesAt (actionGraph (fst (mergeResult toy_platform True 1 (emptyState, [])
                                       (demo_seedEntry, demo_resA))))
              ''https://example.com/a'') \<and>
   \<lparr> e_to = ''https://example.com/a::TRANS::Menu::OPT::Logout'', e_label = ''Logout'',
     e_type = Act Click, e_options = None \<rparr>
     \<in> set (edgesAt (actionGraph (fst (mergeResult toy_platform True 1 (emptyState, [])
                                       (demo_seedEntry, demo_resA))))
              ''https://example.com/a::TRANS::Menu'')"
    by (simp add: t transitionNodeOf_def optNodeOf_def transitionEdge_def)
  then show ?thesis using demo_visitA h t ev by simp
qed

section \<open>When synthetic nodes appear\<close>

lemma visit_no_transitions:
  "visit P False tpp oc = Some res \<Longrightarrow> v_transitions res = []"
  by (auto simp: visit_def split: outcome.splits)

lemma filterEdges_subset: "set (filterEdges es) \<subseteq> set es"
  by (auto simp: filterEdges_def Let_def)

lemma crawlFinal_plain:
  assumes "\<not> discoverTransitionsOf opts"
  shows "fst ` set (actionGraph (crawlFinal P opts site)) = visited (crawlFinal P opts site) \<and>
         (\<forall>k. \<forall>e \<in> set (edgesAt (actionGraph (crawlFinal P opts site)) k).
            e_type e \<noteq> Transition \<and> (e_type e = Act Navigate \<or> e_to e = k))"
proof (rule crawlFinal_inv
    [where I = "\<lambda>st. fst ` set (actionGraph st) = visited st \<and>
         (\<forall>k. \<forall>e \<in> set (edgesAt (actionGraph st) k).
            e_type e \<noteq> Transition \<and> (e_type e = Act Navigate \<or> e_to e = k))"])
  show "fst ` set (actionGraph emptyState) = visited emptyState \<and>
         (\<forall>k. \<forall>e \<in> set (edgesAt (actionGraph emptyState) k).
            e_type e \<noteq> Transition \<and> (e_type e = Act Navigate \<or> e_to e = k))"
    by (simp add: emptyState_def edgesAt_def)
next
  fix st :: crawlState and cands :: "frontierEntry list" and f :: frontierEntry
    and r :: visitResult
  assume i: "fst ` set (actionGraph st) = visited st \<and>
         (\<forall>k. \<forall>e \<in> set (edgesAt (actionGraph st) k).
            e_type e \<noteq> Transition \<and> (e_type e = Act Navigate \<or> e_to e = k))"
    and v: "\<exists>oc. visit P (discoverTransitionsOf opts) (transitionsPerPageOf opts) oc = Some r"
  let ?st = "fst (mergeResult P (sameOriginOf opts) (maxDepthOf opts) (st, cands) (f, r))"
  from v assms have nt: "v_transitions r = []" by (auto dest: visit_no_transitions)
  show "fst ` set (actionGraph ?st) = visited ?st \<and>
         (\<forall>k. \<forall>e \<in> set (edgesAt (actionGraph ?st) k).
            e_type e \<noteq> Transition \<and> (e_type e = Act Navigate \<or> e_to e = k))"
  proof (cases "normalized r \<in> visited st")
    case True
    then show ?thesis using i by (simp add: mergeResult_claimed)
  next
    case False
    have keys: "fst ` set (actionGraph ?st) = visited ?st"
      using i nt by (simp add: merged_keys [OF False] merged_fresh(1) [OF False])
    have edges: "e_type e \<noteq> Transition \<and> (e_type e = Act Navigate \<or> e_to e = k)"
      if e: "e \<in> set (edgesAt (actionGraph ?st) k)" for k e
    proof (cases "k = normalized r")
      case other: False
      then show ?thesis using e i nt by (simp add: merged_other [OF False other])
    next
      case True
      let ?pe = "pageEdges P (sameOriginOf opts) (f_origin f) (insert (normalized r) (visited st))
                   (normalized r) (v_actions r)"
      from e True nt have "e \<in> set (edgesAt (actionGraph st) k) \<or> e \<in> set (filterEdges (snd ?pe))"
        by (auto simp: merged_fresh(3) [OF False])
      then show ?thesis
      proof
        assume "e \<in> set (edgesAt (actionGraph st) k)"
        then show ?thesis using i by blast
      next
        assume "e \<in> set (filterEdges (snd ?pe))"
        then have "e \<in> set (snd ?pe)" using filterEdges_subset by blast
        then show ?thesis using pageEdges_types [of e] True by blast
      qed
    qed
    show ?thesis using keys edges by blast
  qed
qed

text \<open>
  C3, as the source has it.  With \<open>discoverTransitions\<close> off, the keys of \<open>actionGraph\<close> are
  exactly the URLs of the pages, no edge is a transition edge, and every edge is a navigate
  edge or a self-loop.  When a fulfilled visit of a page \<open>a\<close> not yet claimed is merged, the
  keys that appear are \<open>a\<close>, the transition node of every transition with a non-empty
  trigger label, whatever its \<open>added\<close> and \<open>removed\<close>, and the option node of every non-empty
  label of \<open>added\<close>, or of \<open>removed\<close> when \<open>added\<close> is empty; and every transition with a
  non-empty trigger label gets its transition edge from \<open>a\<close>.  So a transition whose
  \<open>added\<close> and \<open>removed\<close> are both empty still has its node and its edge, and no option node.
\<close>

theorem synthetic_nodes_created:
  "(\<not> discoverTransitionsOf opts \<longrightarrow>
      fst ` set (r_actionGraph (crawl P opts site)) = p_url ` set (r_pages (crawl P opts site)) \<and>
      (\<forall>k. \<forall>e \<in> set (edgesAt (r_actionGraph (crawl P opts site)) k).
         e_type e \<noteq> Transition \<and> (e_type e = Act Navigate \<or> e_to e = k))) \<and>
   (normalized res \<notin> visited st \<longrightarrow>
      fst ` set (actionGraph (fst (mergeResult P so md (st, cands) (input, res))))
        = insert (normalized res)
            (fst ` set (actionGraph st) \<union>
             (\<Union>tr \<in> set (v_transitions res).
                if triggerLabel tr = [] then {}
                else insert (transitionNodeOf (normalized res) (triggerLabel tr))
                       (optNodeOf (transitionNodeOf (normalized res) (triggerLabel tr)) `
                          {l \<in> (if added tr \<noteq> [] then set (added tr) else set (removed tr)).
                             l \<noteq> []}))) \<and>
      (\<forall>tr \<in> set (v_transitions res). triggerLabel tr \<noteq> [] \<longrightarrow>
         transitionEdge (normalized res) (triggerLabel tr)
           \<in> set (edgesAt (actionGraph (fst (mergeResult P so md (st, cands) (input, res))))
                    (normalized res))))"
proof -
  have a: "fst ` set (r_actionGraph (crawl P opts site)) = p_url ` set (r_pages (crawl P opts site)) \<and>
      (\<forall>k. \<forall>e \<in> set (edgesAt (r_actionGraph (crawl P opts site)) k).
         e_type e \<noteq> Transition \<and> (e_type e = Act Navigate \<or> e_to e = k))"
    if "\<not> discoverTransitionsOf opts"
    using crawlFinal_plain [OF that, of P site] crawlFinal_claims [of P opts site]
    by (simp add: crawl_def Let_def)
  have b: "fst ` set (actionGraph (fst (mergeResult P so md (st, cands) (input, res))))
        = insert (normalized res)
            (fst ` set (actionGraph st) \<union>
             (\<Union>tr \<in> set (v_transitions res).
                if triggerLabel tr = [] then {}
                else insert (transitionNodeOf (normalized res) (triggerLabel tr))
                       (optNodeOf (transitionNodeOf (normalized res) (triggerLabel tr)) `
                          {l \<in> (if added tr \<noteq> [] then set (added tr) else set (removed tr)).
                             l \<noteq> []})))"
    if "normalized res \<notin> visited st"
    by (simp add: merged_keys [OF that] set_combinedOf)
  have c: "\<forall>tr \<in> set (v_transitions res). triggerLabel tr \<noteq> [] \<longrightarrow>
         transitionEdge (normalized res) (triggerLabel tr)
           \<in> set (edgesAt (actionGraph (fst (mergeResult P so md (st, cands) (input, res))))
                    (normalized res))"
    if "normalized res \<notin> visited st"
    using merged_transition_edge [OF that] by blast
  show ?thesis using a b c by blast
qed


theorem synthetic_nodes_created_witness:
  "\<not> discoverTransitionsOf (demo_opts \<lparr> discoverTransitions := Some False \<rparr>) \<and>
   fst ` set (r_actionGraph
                (crawl toy_platform (demo_opts \<lparr> discoverTransitions := Some False \<rparr>) demo_site))
     = p_url ` set (r_pages
                (crawl toy_platform (demo_opts \<lparr> discoverTransitions := Some False \<rparr>) demo_site)) \<and>
   normalized demo_resA \<notin> visited emptyState \<and>
   fst ` set (actionGraph (fst (mergeResult toy_platform True 1 (emptyState, [])
                                  (demo_seedEntry, demo_resA))))
     = {''https://example.com/a'', ''https://example.com/a::TRANS::Menu'',
        ''https://example.com/a::TRANS::Menu::OPT::Profile'',
        ''https://example.com/a::TRANS::Menu::OPT::Logout'',
        ''https://example.com/a::TRANS::Help''} \<and>
   demo_help \<in> set (v_transitions demo_resA) \<and> triggerLabel demo_help \<noteq> [] \<and>
   transitionEdge (normalized demo_resA) (triggerLabel demo_help)
     \<in> set (edgesAt (actionGraph (fst (mergeResult toy_platform True 1 (emptyState, [])
                                       (demo_seedEntry, demo_resA))))
              (normalized demo_resA))"
proof -
  have o: "\<not> discoverTransitionsOf (demo_opts \<lparr> discoverTransitions := Some False \<rparr>)"
    by (simp add: discoverTransitionsOf_def)
  have h: "normalized demo_resA \<notin> visited emptyState"
    by (simp add: emptyState_def)
  have t: "demo_help \<in> set (v_transitions demo_resA)" "triggerLabel demo_help \<noteq> []"
    by (simp_all add: demo_resA_def demo_help_def)
  note T = synthetic_nodes_created
      [of "demo_opts \<lparr> discoverTransitions := Some False \<rparr>" toy_platform demo_site
          demo_resA emptyState True 1 "[]" demo_seedEntry]
  from T o have a: "fst ` set (r_actionGraph
                (crawl toy_platform (demo_opts \<lparr> discoverTransitions := Some False \<rparr>) demo_site))
     = p_url ` set (r_pages
                (crawl toy_platform (demo_opts \<lparr> discoverTransitions := Some False \<rparr>) demo_site))"
    by blast
  from T h t have c: "transitionEdge (normalized demo_resA) (triggerLabel demo_help)
     \<in> set (edgesAt (actionGraph (fst (mergeResult toy_platform True 1 (emptyState, [])
                                       (demo_seedEntry, demo_resA))))
              (normalized demo_resA))"
    by blast
  have k: "fst ` set (actionGraph (fst (mergeResult toy_platform True 1 (emptyState, [])
                                  (demo_seedEntry, demo_resA))))
     = {''https://example.com/a'', ''https://example.com/a::TRANS::Menu'',
        ''https://example.com/a::TRANS::Menu::OPT::Profile'',
        ''https://example.com/a::TRANS::Menu::OPT::Logout'',
        ''https://example.com/a::TRANS::Help''}"
    by (simp only: demo_mergeA fst_conv) (auto simp: demo_stateA_def demo_graphA_def)
  show ?thesis using o a h k t c by blast
qed

text \<open>
  The claim as the specification states it fails on the example site: probing \<open>Help\<close> on
  page \<open>/a\<close> adds and removes no label, and the crawl still has the transition node
  \<open>https://example.com/a::TRANS::Help\<close> and the transition edge from the page to it.
\<close>

theorem empty_delta_transition_counterexample:
  "discoverTransitionsOf demo_opts \<and>
   visit toy_platform True 12 (Loaded demo_pageA) = Some demo_resA \<and>
   demo_help \<in> set (v_transitions demo_resA) \<and>
   added demo_help = [] \<and> removed demo_help = [] \<and>
   ''https://example.com/a::TRANS::Help''
     \<in> fst ` set (r_actionGraph (crawl toy_platform demo_opts demo_site)) \<and>
   \<lparr> e_to = ''https://example.com/a::TRANS::Help'', e_label = ''Help'', e_type = Transition,
     e_options = None \<rparr>
     \<in> set (edgesAt (r_actionGraph (crawl toy_platform demo_opts demo_site))
              ''https://example.com/a'')"
proof -
  have o: "discoverTransitionsOf demo_opts"
    by (simp add: discoverTransitionsOf_def demo_opts_def)
  have t: "demo_help \<in> set (v_transitions demo_resA)" "added demo_help = []"
    "removed demo_help = []"
    by (simp_all add: demo_resA_def demo_help_def)
  have g: "''https://example.com/a::TRANS::Help''
     \<in> fst ` set (r_actionGraph (crawl toy_platform demo_opts demo_site))"
    "\<lparr> e_to = ''https://example.com/a::TRANS::Help'', e_label = ''Help'', e_type = Transition,
       e_options = None \<rparr>
     \<in> set (edgesAt (r_actionGraph (crawl toy_platform demo_opts demo_site))
              ''https://example.com/a'')"
    by (simp_all add: demo_crawl demo_state_def demo_graphA_def edgesAt_def)
  show ?thesis using o demo_visitA t g by simp
qed

section \<open>Duplicate self-loops\<close>

lemma optionEdge_type:
  "e_type (optionEdge P n navs opt) = Act Navigate \<or>
   (e_type (optionEdge P n navs opt) = Act Click \<and> e_to (optionEdge P n navs opt) = n)"
  by (simp add: optionEdge_def split: option.splits)

lemma optionEdgesAt_harmless:
  assumes "e \<in> set (optionEdgesAt P n (transitionNodeOf n t) navs k opt)"
  shows "e_type e = Act Navigate \<or> (e_type e = Act Click \<and> e_to e \<noteq> k)"
proof -
  let ?tn = "transitionNodeOf n t"
  from assms have ne: "opt \<noteq> []" by (auto simp: optionEdgesAt_def split: if_splits)
  from assms ne consider
    (click) "k = ?tn"
      "e = \<lparr> e_to = optNodeOf ?tn opt, e_label = opt, e_type = Act Click, e_options = None \<rparr>"
    | (dest) "k = optNodeOf ?tn opt" "e = optionEdge P n navs opt"
    by (auto simp: optionEdgesAt_def split: if_splits)
  then show ?thesis
  proof cases
    case click
    then show ?thesis using optNodeOf_neq [of ?tn opt] by simp
  next
    case dest
    have "n \<noteq> k" using dest(1) optNodeOf_trans_neq [of n t opt] by simp
    then show ?thesis using dest(2) optionEdge_type [of P n navs opt] by auto
  qed
qed

lemma transitionEdgesAt_harmless:
  assumes "e \<in> set (transitionEdgesAt P n navs k tr)"
  shows "e_type e = Act Navigate \<or> (e_type e = Act Click \<and> e_to e \<noteq> k)"
proof -
  from assms obtain opt where
    "e \<in> set (optionEdgesAt P n (transitionNodeOf n (triggerLabel tr)) navs k opt)"
    by (auto simp: transitionEdgesAt_def split: if_splits)
  then show ?thesis by (rule optionEdgesAt_harmless)
qed

lemma filterEdges_label:
  assumes "e \<in> set (filterEdges es)" and "e_type e \<noteq> Act Navigate" and "e_type e \<noteq> Transition"
    and "t \<in> set es" and "e_type t = Transition"
  shows "e_label t \<noteq> e_label e"
proof
  assume eq: "e_label t = e_label e"
  have "e_label t \<in> set (map e_label (filter (\<lambda>e. e_type e = Transition) es))"
    using assms(4,5) by simp
  then have "e_label e \<in> set (map e_label (filter (\<lambda>e. e_type e = Transition) es))"
    using eq by simp
  then show False using assms(1,2,3) by (simp add: filterEdges_def Let_def)
qed

lemma noDuplicateLoops_merge:
  assumes inv: "noDuplicateLoops st"
  shows "noDuplicateLoops (fst (mergeResult P so md (st, cands) (f, r)))"
proof (cases "normalized r \<in> visited st")
  case True
  then show ?thesis using inv by (simp add: mergeResult_claimed)
next
  case fresh: False
  let ?n = "normalized r"
  let ?st = "fst (mergeResult P so md (st, cands) (f, r))"
  let ?navs = "snd (pageEdges P so (f_origin f) (insert ?n (visited st)) ?n (v_actions r))"
  let ?tl = "foldl (transitionStep P ?n) (?navs, actionGraph st) (v_transitions r)"
  let ?X = "\<lambda>k. concat (map (transitionEdgesAt P ?n ?navs k) (v_transitions r))"
  have vis: "visited ?st = insert ?n (visited st)" by (rule merged_fresh(1) [OF fresh])
  have harmless: "e_type e = Act Navigate \<or> (e_type e = Act Click \<and> e_to e \<noteq> k)"
    if "e \<in> set (?X k)" for e k
  proof -
    from that obtain tr where "e \<in> set (transitionEdgesAt P ?n ?navs k tr)" by auto
    then show ?thesis by (rule transitionEdgesAt_harmless)
  qed
  have old: "e_type e \<noteq> Transition \<and> \<not> ((e_type e = Act Click \<or> e_type e = Act Toggle) \<and> e_to e = ?n)"
    if "e \<in> set (edgesAt (actionGraph st) ?n)" for e
    using inv that fresh unfolding noDuplicateLoops_def by blast
  have at_n: "edgesAt (actionGraph ?st) ?n
                = edgesAt (actionGraph st) ?n @ ?X ?n @ filterEdges (fst ?tl)"
    using foldl_transitionStep_edgesAt [of "[]" P ?n ?navs "actionGraph st" "v_transitions r" ?n]
    by (simp add: merged_fresh(3) [OF fresh])
  have at_k: "edgesAt (actionGraph ?st) k = edgesAt (actionGraph st) k @ ?X k" if "k \<noteq> ?n" for k
    by (rule merged_other [OF fresh that])
  have mem_k: "e \<in> set (edgesAt (actionGraph ?st) k) \<longleftrightarrow>
                 e \<in> set (edgesAt (actionGraph st) k) \<or> e \<in> set (?X k)"
    if "k \<noteq> ?n" for e k
    by (simp only: at_k [OF that] set_append Un_iff)
  have mem_n: "e \<in> set (edgesAt (actionGraph ?st) ?n) \<longleftrightarrow>
                 e \<in> set (edgesAt (actionGraph st) ?n) \<or> e \<in> set (?X ?n) \<or>
                 e \<in> set (filterEdges (fst ?tl))" for e
    by (simp only: at_n set_append Un_iff)
  have goal: "(e_type e = Transition \<longrightarrow> k \<in> visited ?st) \<and>
        ((e_type e = Act Click \<or> e_type e = Act Toggle) \<and> e_to e = k \<longrightarrow>
           k \<in> visited ?st \<and>
           (\<forall>t \<in> set (edgesAt (actionGraph ?st) k). e_type t = Transition \<longrightarrow>
              e_label t \<noteq> e_label e))"
    if e: "e \<in> set (edgesAt (actionGraph ?st) k)" for k e
  proof (cases "k = ?n")
    case other: False
    have tr_old: "t \<in> set (edgesAt (actionGraph st) k)"
      if "t \<in> set (edgesAt (actionGraph ?st) k)" "e_type t = Transition" for t
    proof -
      from that(1) have "t \<in> set (edgesAt (actionGraph st) k) \<or> t \<in> set (?X k)"
        by (simp only: mem_k [OF other])
      moreover have "t \<notin> set (?X k)"
      proof
        assume "t \<in> set (?X k)"
        then have "e_type t = Act Navigate \<or> (e_type t = Act Click \<and> e_to t \<noteq> k)"
          by (rule harmless)
        then show False using that(2) by auto
      qed
      ultimately show ?thesis by blast
    qed
    have p1: "k \<in> visited ?st" if "e_type e = Transition"
      using tr_old [OF e that] that inv unfolding noDuplicateLoops_def vis by blast
    have p2: "k \<in> visited ?st \<and>
           (\<forall>t \<in> set (edgesAt (actionGraph ?st) k). e_type t = Transition \<longrightarrow>
              e_label t \<noteq> e_label e)"
      if l: "(e_type e = Act Click \<or> e_type e = Act Toggle) \<and> e_to e = k"
    proof -
      from e have "e \<in> set (edgesAt (actionGraph st) k) \<or> e \<in> set (?X k)"
        by (simp only: mem_k [OF other])
      moreover have "e \<notin> set (?X k)"
      proof
        assume "e \<in> set (?X k)"
        then have "e_type e = Act Navigate \<or> (e_type e = Act Click \<and> e_to e \<noteq> k)"
          by (rule harmless)
        then show False using l by auto
      qed
      ultimately have eo: "e \<in> set (edgesAt (actionGraph st) k)" by blast
      then have "k \<in> visited st \<and>
           (\<forall>t \<in> set (edgesAt (actionGraph st) k). e_type t = Transition \<longrightarrow>
              e_label t \<noteq> e_label e)"
        using inv l unfolding noDuplicateLoops_def by blast
      then show ?thesis using tr_old unfolding vis by blast
    qed
    show ?thesis using p1 p2 by blast
  next
    case True
    have in_n: "k \<in> visited ?st" using True vis by simp
    have new: "t \<in> set (filterEdges (fst ?tl))"
      if "t \<in> set (edgesAt (actionGraph ?st) ?n)"
        "e_type t = Transition \<or> ((e_type t = Act Click \<or> e_type t = Act Toggle) \<and> e_to t = ?n)"
      for t
    proof -
      from that(1) have "t \<in> set (edgesAt (actionGraph st) ?n) \<or> t \<in> set (?X ?n) \<or>
                 t \<in> set (filterEdges (fst ?tl))"
        by (simp only: mem_n)
      moreover have "t \<notin> set (?X ?n)"
      proof
        assume "t \<in> set (?X ?n)"
        then have "e_type t = Act Navigate \<or> (e_type t = Act Click \<and> e_to t \<noteq> ?n)"
          by (rule harmless)
        then show False using that(2) by auto
      qed
      moreover have "t \<notin> set (edgesAt (actionGraph st) ?n)" using old [of t] that(2) by auto
      ultimately show ?thesis by blast
    qed
    have p2: "\<forall>t \<in> set (edgesAt (actionGraph ?st) k). e_type t = Transition \<longrightarrow>
              e_label t \<noteq> e_label e"
      if l: "(e_type e = Act Click \<or> e_type e = Act Toggle) \<and> e_to e = k"
    proof -
      have ef: "e \<in> set (filterEdges (fst ?tl))"
        using new [of e] e l True by auto
      have "e_label t \<noteq> e_label e"
        if "t \<in> set (edgesAt (actionGraph ?st) k)" "e_type t = Transition" for t
      proof -
        have "t \<in> set (filterEdges (fst ?tl))" using new [of t] that True by auto
        then have "t \<in> set (fst ?tl)" using filterEdges_subset by blast
        then show ?thesis using filterEdges_label [OF ef _ _ _ that(2)] l by auto
      qed
      then show ?thesis by blast
    qed
    show ?thesis using in_n p2 by blast
  qed
  show ?thesis unfolding noDuplicateLoops_def using goal by blast
qed

lemma crawlFinal_noDuplicateLoops: "noDuplicateLoops (crawlFinal P opts site)"
proof (rule crawlFinal_inv [where I = noDuplicateLoops])
  show "noDuplicateLoops emptyState"
    by (simp add: noDuplicateLoops_def emptyState_def edgesAt_def)
next
  fix st :: crawlState and cands :: "frontierEntry list" and f :: frontierEntry
    and r :: visitResult
  assume "noDuplicateLoops st"
  then show "noDuplicateLoops
     (fst (mergeResult P (sameOriginOf opts) (maxDepthOf opts) (st, cands) (f, r)))"
    by (rule noDuplicateLoops_merge)
qed


text \<open>
  C7.  In every crawl result, under every node, no click or toggle self-loop has the label
  of a transition edge of the same node.  The navigate edges recorded for a page and the
  transition edge of every transition with a non-empty trigger label are kept in the
  page's \<open>actionGraph\<close> entry when the page is merged, whatever their labels.
\<close>

theorem duplicate_loops_suppressed:
  "(\<forall>k. \<forall>e \<in> set (edgesAt (r_actionGraph (crawl P opts site)) k).
      (e_type e = Act Click \<or> e_type e = Act Toggle) \<and> e_to e = k \<longrightarrow>
      (\<forall>t \<in> set (edgesAt (r_actionGraph (crawl P opts site)) k).
         e_type t = Transition \<longrightarrow> e_label t \<noteq> e_label e)) \<and>
   (normalized res \<notin> visited st \<longrightarrow>
      (\<forall>e \<in> set (snd (pageEdges P so (f_origin input) (insert (normalized res) (visited st))
                           (normalized res) (v_actions res))).
         e_type e = Act Navigate \<longrightarrow>
         e \<in> set (edgesAt (actionGraph (fst (mergeResult P so md (st, cands) (input, res))))
                    (normalized res))) \<and>
      (\<forall>tr \<in> set (v_transitions res). triggerLabel tr \<noteq> [] \<longrightarrow>
         transitionEdge (normalized res) (triggerLabel tr)
           \<in> set (edgesAt (actionGraph (fst (mergeResult P so md (st, cands) (input, res))))
                    (normalized res))))"
proof -
  have a: "\<forall>k. \<forall>e \<in> set (edgesAt (r_actionGraph (crawl P opts site)) k).
      (e_type e = Act Click \<or> e_type e = Act Toggle) \<and> e_to e = k \<longrightarrow>
      (\<forall>t \<in> set (edgesAt (r_actionGraph (crawl P opts site)) k).
         e_type t = Transition \<longrightarrow> e_label t \<noteq> e_label e)"
    using crawlFinal_noDuplicateLoops [of P opts site]
    unfolding noDuplicateLoops_def by (simp add: crawl_def Let_def)
  have b: "e \<in> set (edgesAt (actionGraph (fst (mergeResult P so md (st, cands) (input, res))))
                    (normalized res))"
    if "normalized res \<notin> visited st"
      "e \<in> set (snd (pageEdges P so (f_origin input) (insert (normalized res) (visited st))
                           (normalized res) (v_actions res)))"
      "e_type e = Act Navigate" for e
    using that by (rule merged_nav_edge)
  have c: "transitionEdge (normalized res) (triggerLabel tr)
           \<in> set (edgesAt (actionGraph (fst (mergeResult P so md (st, cands) (input, res))))
                    (normalized res))"
    if "normalized res \<notin> visited st" "tr \<in> set (v_transitions res)" "triggerLabel tr \<noteq> []"
    for tr
    using that by (rule merged_transition_edge)
  show ?thesis using a b c by blast
qed

theorem duplicate_loops_suppressed_witness:
  "btn ''Menu'' \<in> set (p_actions (hd (r_pages (crawl toy_platform demo_opts demo_site)))) \<and>
   \<lparr> e_to = ''https://example.com/a::TRANS::Menu'', e_label = ''Menu'', e_type = Transition,
     e_options = None \<rparr>
     \<in> set (edgesAt (r_actionGraph (crawl toy_platform demo_opts demo_site))
              ''https://example.com/a'') \<and>
   \<lparr> e_to = ''https://example.com/a'', e_label = ''Menu'', e_type = Act Click,
     e_options = None \<rparr>
     \<notin> set (edgesAt (r_actionGraph (crawl toy_platform demo_opts demo_site))
              ''https://example.com/a'') \<and>
   normalized demo_resA \<notin> visited emptyState \<and>
   demo_menu \<in> set (v_transitions demo_resA) \<and> triggerLabel demo_menu \<noteq> [] \<and>
   transitionEdge (normalized demo_resA) (triggerLabel demo_menu)
     \<in> set (edgesAt (actionGraph (fst (mergeResult toy_platform True 1 (emptyState, [])
                                       (demo_seedEntry, demo_resA))))
              (normalized demo_resA))"
proof -
  let ?t = "\<lparr> e_to = ''https://example.com/a::TRANS::Menu'', e_label = ''Menu'',
              e_type = Transition, e_options = None \<rparr>"
  let ?e = "\<lparr> e_to = ''https://example.com/a'', e_label = ''Menu'', e_type = Act Click,
              e_options = None \<rparr>"
  let ?ag = "r_actionGraph (crawl toy_platform demo_opts demo_site)"
  note T = duplicate_loops_suppressed
      [of toy_platform demo_opts demo_site demo_resA emptyState True demo_seedEntry 1 "[]"]
  have p: "btn ''Menu'' \<in> set (p_actions (hd (r_pages (crawl toy_platform demo_opts demo_site))))"
    by (simp add: demo_crawl demo_state_def demo_pageA_def)
  have t: "?t \<in> set (edgesAt ?ag ''https://example.com/a'')"
    by (simp add: demo_crawl demo_state_def demo_graphA_def edgesAt_def)
  have "?e \<notin> set (edgesAt ?ag ''https://example.com/a'')"
  proof
    assume "?e \<in> set (edgesAt ?ag ''https://example.com/a'')"
    with T have "\<forall>t \<in> set (edgesAt ?ag ''https://example.com/a'').
                   e_type t = Transition \<longrightarrow> e_label t \<noteq> e_label ?e"
      by (elim conjE allE [of _ "''https://example.com/a''"] ballE [of _ _ ?e]) simp_all
    with t show False by force
  qed
  moreover have h: "normalized demo_resA \<notin> visited emptyState"
    by (simp add: emptyState_def)
  moreover have m: "demo_menu \<in> set (v_transitions demo_resA)" "triggerLabel demo_menu \<noteq> []"
    by (simp_all add: demo_resA_def demo_menu_def)
  moreover from T h m have "transitionEdge (normalized demo_resA) (triggerLabel demo_menu)
     \<in> set (edgesAt (actionGraph (fst (mergeResult toy_platform True 1 (emptyState, [])
                                       (demo_seedEntry, demo_resA))))
              (normalized demo_resA))"
    by blast
  ultimately show ?thesis using p t by blast
qed


section \<open>DOT export: declarations and edge endpoints\<close>


lemma esc_Nil: "esc [] = []"
  by (simp add: esc_def replaceAll_def)

lemma esc_Cons:
  "esc (c # s) =
     (if c = CHR 0x5C then [CHR 0x5C, CHR 0x5C]
      else if c = CHR 0x22 then [CHR 0x5C, CHR 0x22] else [c]) @ esc s"
  by (simp add: esc_def replaceAll_def)

lemma esc_inj: "esc a = esc b \<Longrightarrow> a = b"
proof (induction a arbitrary: b)
  case Nil
  then show ?case by (cases b) (auto simp: esc_Nil esc_Cons split: if_splits)
next
  case (Cons x xs)
  show ?case
  proof (cases b)
    case Nil
    then show ?thesis using Cons.prems by (auto simp: esc_Nil esc_Cons split: if_splits)
  next
    case (Cons y ys)
    have "x = y \<and> esc xs = esc ys"
      using Cons.prems unfolding Cons esc_Cons by (auto split: if_splits)
    then show ?thesis using Cons.IH [of ys] Cons by simp
  qed
qed

lemma set_foldl_addNode: "set (foldl addNode ns xs) = set ns \<union> set xs"
  by (induction xs arbitrary: ns) (auto simp: addNode_def)

lemma distinct_foldl_addNode: "distinct ns \<Longrightarrow> distinct (foldl addNode ns xs)"
  by (induction xs arbitrary: ns) (auto simp: addNode_def)

lemma set_foldl_outs:
  "set (foldl (\<lambda>ns kv. foldl addNode ns (snd kv)) ns g) = set ns \<union> (\<Union>kv \<in> set g. set (snd kv))"
  by (induction g arbitrary: ns) (auto simp: set_foldl_addNode)

lemma distinct_foldl_outs:
  "distinct ns \<Longrightarrow> distinct (foldl (\<lambda>ns kv. foldl addNode ns (snd kv)) ns g)"
  by (induction g arbitrary: ns) (simp_all add: distinct_foldl_addNode)

lemma set_foldl_edges:
  "set (foldl (\<lambda>ns kv. foldl addNode (addNode ns (fst kv)) (map e_to (snd kv))) ns ag) =
     set ns \<union> fst ` set ag \<union> (\<Union>kv \<in> set ag. e_to ` set (snd kv))"
proof (induction ag arbitrary: ns)
  case Nil
  then show ?case by simp
next
  case (Cons kv ag)
  have "set (addNode ns (fst kv)) = insert (fst kv) (set ns)"
    by (auto simp: addNode_def)
  then show ?case by (auto simp: Cons.IH set_foldl_addNode)
qed

lemma distinct_addNode: "distinct ns \<Longrightarrow> distinct (addNode ns n)"
  by (simp add: addNode_def)

lemma distinct_foldl_edges:
  "distinct ns \<Longrightarrow>
   distinct (foldl (\<lambda>ns kv. foldl addNode (addNode ns (fst kv)) (map e_to (snd kv))) ns ag)"
  by (induction ag arbitrary: ns) (simp_all add: distinct_foldl_addNode distinct_addNode)

lemma distinct_dotNodes: "distinct (dotNodes r)"
  by (simp add: dotNodes_def Let_def distinct_foldl_edges distinct_foldl_outs
        distinct_foldl_addNode)

lemma set_dotNodes:
  "set (dotNodes r) =
     fst ` set (r_graph r) \<union> (\<Union>kv \<in> set (r_graph r). set (snd kv)) \<union>
     fst ` set (r_actionGraph r) \<union> (\<Union>kv \<in> set (r_actionGraph r). e_to ` set (snd kv))"
  by (simp add: dotNodes_def Let_def set_foldl_edges set_foldl_outs set_foldl_addNode)

lemma declId_declLine: "declId (declLine P n) = Some (esc n)"
  by (simp add: declLine_def Let_def)

lemma declId_navLine: "declId (navLine r src dst) = None"
  by (simp add: navLine_def Let_def)

lemma declId_actionLine: "l \<in> set (actionLine src e) \<Longrightarrow> declId l = None"
  by (auto simp: actionLine_def split: if_splits)

lemma filter_none: "(\<And>x. x \<in> set xs \<Longrightarrow> \<not> Q x) \<Longrightarrow> filter Q xs = []"
  by (induction xs) auto

lemma count_distinct:
  "distinct xs \<Longrightarrow> length (filter (\<lambda>m. m = n) xs) = (if n \<in> set xs then 1 else 0)"
  by (induction xs) auto

lemma decl_count:
  "length (filter (\<lambda>l. declId l = Some (esc n)) (toDotLines P r)) =
     (if n \<in> set (dotNodes r) then 1 else 0)"
proof -
  have nav: "filter (\<lambda>l. declId l = Some (esc n)) (navLines r) = []"
    by (rule filter_none) (auto simp: navLines_def declId_navLine)
  have act: "filter (\<lambda>l. declId l = Some (esc n)) (actionLines r) = []"
    by (rule filter_none) (auto simp: actionLines_def dest: declId_actionLine)
  have iff: "esc m = esc n \<longleftrightarrow> m = n" for m
    using esc_inj by auto
  have "filter (\<lambda>l. declId l = Some (esc n)) (map (declLine P) (dotNodes r))
          = map (declLine P) (filter (\<lambda>m. m = n) (dotNodes r))"
    by (simp add: filter_map comp_def declId_declLine iff)
  moreover have "length (filter (\<lambda>m. m = n) (dotNodes r)) = (if n \<in> set (dotNodes r) then 1 else 0)"
    by (rule count_distinct [OF distinct_dotNodes])
  ultimately show ?thesis by (simp add: toDotLines_def nav act)
qed


lemma arrow_endpoints:
  assumes "Arrow s d a \<in> set (toDotLines P r)"
  shows "\<exists>src dst. s = esc src \<and> d = esc dst \<and> src \<in> set (dotNodes r) \<and> dst \<in> set (dotNodes r)"
proof -
  have decl: "Arrow s d a \<notin> set (map (declLine P) (dotNodes r))"
    by (auto simp: declLine_def Let_def)
  from assms decl consider (nav) "Arrow s d a \<in> set (navLines r)"
    | (act) "Arrow s d a \<in> set (actionLines r)"
    by (auto simp: toDotLines_def)
  then show ?thesis
  proof cases
    case nav
    then obtain kv dst where kv: "kv \<in> set (r_graph r)" and dst: "dst \<in> set (snd kv)"
      and l: "Arrow s d a = navLine r (fst kv) dst"
      by (auto simp: navLines_def set_uniq)
    from l have "s = esc (fst kv) \<and> d = esc dst"
      by (auto simp: navLine_def Let_def split: if_splits)
    moreover have "fst kv \<in> set (dotNodes r)" "dst \<in> set (dotNodes r)"
      using kv dst by (auto simp: set_dotNodes)
    ultimately show ?thesis by blast
  next
    case act
    then obtain kv e where kv: "kv \<in> set (r_actionGraph r)" and e: "e \<in> set (snd kv)"
      and l: "Arrow s d a \<in> set (actionLine (fst kv) e)"
      by (auto simp: actionLines_def)
    from l have "s = esc (fst kv) \<and> d = esc (e_to e)"
      by (auto simp: actionLine_def split: if_splits)
    moreover have "fst kv \<in> set (dotNodes r)" "e_to e \<in> set (dotNodes r)"
      using kv e by (auto simp: set_dotNodes)
    ultimately show ?thesis by blast
  qed
qed

text \<open>
  C9.  In the lines of \<open>toDot\<close>, for any crawl result, the source and the target of every
  edge line are escaped node ids, each with exactly one node-declaration line of that
  escaped id; declarations and edge lines use the same escaping, which maps different ids
  to different texts.  The DOT text is these lines, rendered and joined by newlines.
\<close>

theorem dot_endpoints_declared:
  "(\<forall>s d a. Arrow s d a \<in> set (toDotLines P r) \<longrightarrow>
      (\<exists>src dst. s = esc src \<and> d = esc dst \<and>
         length (filter (\<lambda>l. declId l = Some (esc src)) (toDotLines P r)) = 1 \<and>
         length (filter (\<lambda>l. declId l = Some (esc dst)) (toDotLines P r)) = 1)) \<and>
   (\<forall>x y. esc x = esc y \<longrightarrow> x = y) \<and>
   toDot P r = joinLines (map render (toDotLines P r))"
proof -
  have "\<exists>src dst. s = esc src \<and> d = esc dst \<and>
         length (filter (\<lambda>l. declId l = Some (esc src)) (toDotLines P r)) = 1 \<and>
         length (filter (\<lambda>l. declId l = Some (esc dst)) (toDotLines P r)) = 1"
    if "Arrow s d a \<in> set (toDotLines P r)" for s d a
    using arrow_endpoints [OF that] by (auto simp: decl_count)
  then show ?thesis using esc_inj by (auto simp: toDot_def)
qed

lemma demo_dot_lines:
  "toDotLines toy_platform demo_dotResult =
     [Plain ''digraph G {'', Plain ''  rankdir=LR;'',
      Plain ''  node [shape=box, style=rounded, fontsize=10];'',
      declLine toy_platform ''https://example.com/a'',
      declLine toy_platform ''https://example.com/docs'',
      declLine toy_platform (transitionNodeOf ''https://example.com/a'' demo_quoted),
      Arrow (esc ''https://example.com/a'') (esc ''https://example.com/docs'')
        ('' [label='' @ dq @ ''Docs'' @ dq @ '']''),
      Arrow (esc ''https://example.com/a'')
        (esc (transitionNodeOf ''https://example.com/a'' demo_quoted))
        ('' [style=dotted, color=dodgerblue, label='' @ dq @ esc demo_quoted @ dq @ '']''),
      Plain ''}'']"
  by code_simp

theorem dot_endpoints_declared_witness:
  "Arrow (esc ''https://example.com/a'')
     (esc (transitionNodeOf ''https://example.com/a'' demo_quoted))
     ('' [style=dotted, color=dodgerblue, label='' @ dq @ esc demo_quoted @ dq @ '']'')
     \<in> set (toDotLines toy_platform demo_dotResult) \<and>
   esc demo_quoted = ''Say '' @ [CHR 0x5C, CHR 0x22] @ ''hi'' @ [CHR 0x5C, CHR 0x22, CHR 0x5C, CHR 0x5C] \<and>
   length (filter (\<lambda>l. declId l = Some (esc ''https://example.com/a''))
             (toDotLines toy_platform demo_dotResult)) = 1 \<and>
   length (filter (\<lambda>l. declId l =
                         Some (esc (transitionNodeOf ''https://example.com/a'' demo_quoted)))
             (toDotLines toy_platform demo_dotResult)) = 1"
proof -
  let ?s = "esc ''https://example.com/a''"
  let ?d = "esc (transitionNodeOf ''https://example.com/a'' demo_quoted)"
  have m: "Arrow ?s ?d
     ('' [style=dotted, color=dodgerblue, label='' @ dq @ esc demo_quoted @ dq @ '']'')
     \<in> set (toDotLines toy_platform demo_dotResult)"
    by (simp add: demo_dot_lines)
  have q: "esc demo_quoted
             = ''Say '' @ [CHR 0x5C, CHR 0x22] @ ''hi'' @ [CHR 0x5C, CHR 0x22, CHR 0x5C, CHR 0x5C]"
    by (simp add: demo_quoted_def esc_Cons esc_Nil)
  from dot_endpoints_declared [of toy_platform demo_dotResult] m
  obtain src dst where e: "?s = esc src" "?d = esc dst"
    and c: "length (filter (\<lambda>l. declId l = Some (esc src))
                      (toDotLines toy_platform demo_dotResult)) = 1"
      "length (filter (\<lambda>l. declId l = Some (esc dst))
                      (toDotLines toy_platform demo_dotResult)) = 1"
    by blast
  show ?thesis using m q e c by simp
qed


end
